theory Spec2Isabelle
  imports Complex_Main "HOL-Library.Word"
begin

unbundle bit_operations_syntax

section \<open>Binary floating point\<close>

text \<open>
  The renderer computes with C \<^verbatim>\<open>float\<close> and \<^verbatim>\<open>double\<close>. A
  floating-point value is modelled by the rational number it denotes, and every
  arithmetic operation by the exact operation followed by rounding to the nearest value
  with a \<open>p\<close>-bit significand, ties to even (\<open>p = 24\<close> for \<^verbatim>\<open>float\<close>,
  \<open>p = 53\<close> for \<^verbatim>\<open>double\<close>), each operation being rounded to the
  type C gives it. The exponent range is not bounded: the magnitudes that occur in the
  functions below stay far away from the overflow and underflow thresholds of both
  formats, and no infinity or NaN is produced by them except where a division by zero
  is written out as \<open>None\<close>.
\<close>

fun ilog2_nat :: "nat \<Rightarrow> nat" where
  "ilog2_nat n = (if n < 2 then 0 else Suc (ilog2_nat (n div 2)))"

declare ilog2_nat.simps [simp del]

definition ilog2 :: "rat \<Rightarrow> int" where
  "ilog2 x = (if 1 \<le> x then int (ilog2_nat (nat \<lfloor>x\<rfloor>))
     else (let k = int (ilog2_nat (nat \<lfloor>1 / x\<rfloor>))
           in if x * 2 powi k = 1 then - k else - k - 1))"

definition round_even :: "rat \<Rightarrow> int" where
  "round_even y = (let f = \<lfloor>y\<rfloor>; d = y - of_int f
     in if d < 1 / 2 then f else if 1 / 2 < d then f + 1
        else if even f then f else f + 1)"

definition fl_round :: "nat \<Rightarrow> rat \<Rightarrow> rat" where
  "fl_round p x = (if x = 0 then 0 else
     (let u = 2 powi (ilog2 \<bar>x\<bar> - int p + 1)
      in of_int (round_even (x / u)) * u))"

definition f32 :: "rat \<Rightarrow> rat" where
  "f32 = fl_round 24"

definition f64 :: "rat \<Rightarrow> rat" where
  "f64 = fl_round 53"

text \<open>Conversion of a floating-point value to an integer type truncates towards zero.\<close>

definition c_trunc :: "rat \<Rightarrow> int" where
  "c_trunc v = (if 0 \<le> v then \<lfloor>v\<rfloor> else \<lceil>v\<rceil>)"

definition to_unsigned :: "rat \<Rightarrow> 32 word" where
  "to_unsigned v = word_of_int (c_trunc v)"

definition of_unsigned :: "32 word \<Rightarrow> rat" where
  "of_unsigned u = of_nat (unat u)"

section \<open>Pixel format conversion\<close>

text \<open>
  \<^verbatim>\<open>argb32_to_abgr1555\<close> (PS2): the colour components are darkened by the
  alpha component when it is below 255, then cut to 5 bits; the alpha bit is always set.
\<close>

definition abgr1555_scale :: "rat \<Rightarrow> 32 word \<Rightarrow> 32 word" where
  "abgr1555_scale a_factor r =
     to_unsigned (f64 (f32 (f32 (of_unsigned r) * a_factor) + 1 / 2)) AND 0xff"

definition argb32_to_abgr1555 :: "32 word \<Rightarrow> 16 word" where
  "argb32_to_abgr1555 col =
     (let a = drop_bit 24 col AND 0xff;
          r = drop_bit 16 col AND 0xff;
          g = drop_bit 8 col AND 0xff;
          b = col AND 0xff;
          a_factor = f32 (f64 (f32 (of_unsigned a) * f64 (1 / 255)));
          r = (if a < 0xff then abgr1555_scale a_factor r else r);
          g = (if a < 0xff then abgr1555_scale a_factor g else g);
          b = (if a < 0xff then abgr1555_scale a_factor b else b);
          r = drop_bit 3 r;
          g = drop_bit 3 g;
          b = drop_bit 3 b
      in ucast (push_bit 15 1 OR push_bit 10 b OR push_bit 5 g OR r))"

text \<open>
  \<^verbatim>\<open>argb32_to_rgb5a3\<close> (GEKKO): 3 bit alpha. Below full alpha the colour
  components are scaled by the ratio of the 4 bit alpha to the 3 bit alpha, the
  division being guarded by \<^verbatim>\<open>a3 > 0\<close>. A division by zero is \<open>None\<close>.
\<close>

definition c_fdiv :: "rat \<Rightarrow> rat \<Rightarrow> rat option" where
  "c_fdiv x y = (if y = 0 then None else Some (f64 (x / y)))"

definition rgb5a3_a_factor :: "32 word \<Rightarrow> 32 word \<Rightarrow> rat option" where
  "rgb5a3_a_factor a3 a4 =
     (if 0 < a3
      then map_option f32
             (c_fdiv (f64 (f32 (of_unsigned a4) * f64 (1 / 15)))
                     (f64 (f32 (of_unsigned a3) * f64 (1 / 7))))
      else Some 1)"

definition rgb5a3_scale :: "rat \<Rightarrow> 32 word \<Rightarrow> 32 word" where
  "rgb5a3_scale a_factor r =
     (let r = to_unsigned (f64 (f32 (f32 (of_unsigned r) * a_factor) + 1 / 2))
      in if r \<le> 0xff then r else 0xff)"

definition argb32_to_rgb5a3 :: "32 word \<Rightarrow> 16 word option" where
  "argb32_to_rgb5a3 col =
     (let a = drop_bit 24 col AND 0xff;
          r = drop_bit 16 col AND 0xff;
          g = drop_bit 8 col AND 0xff;
          b = col AND 0xff;
          a3 = drop_bit 5 a
      in if a < 0xff
         then (case rgb5a3_a_factor a3 (drop_bit 4 a) of
                 None \<Rightarrow> None
               | Some a_factor \<Rightarrow>
                   (let r = drop_bit 4 (rgb5a3_scale a_factor r);
                        g = drop_bit 4 (rgb5a3_scale a_factor g);
                        b = drop_bit 4 (rgb5a3_scale a_factor b)
                    in Some (ucast (push_bit 12 a3 OR push_bit 8 r OR push_bit 4 g OR b))))
         else (let r = drop_bit 4 r;
                   g = drop_bit 4 g;
                   b = drop_bit 4 b
               in Some (ucast (push_bit 12 a3 OR push_bit 8 r OR push_bit 4 g OR b))))"

text \<open>The three converters with a 4 bit alpha channel (PSP, D3D10/11/12, all others).\<close>

definition argb32_to_abgr4444 :: "32 word \<Rightarrow> 16 word" where
  "argb32_to_abgr4444 col =
     (let a = drop_bit 4 (drop_bit 24 col AND 0xff);
          r = drop_bit 4 (drop_bit 16 col AND 0xff);
          g = drop_bit 4 (drop_bit 8 col AND 0xff);
          b = drop_bit 4 (col AND 0xff)
      in ucast (push_bit 12 a OR push_bit 8 b OR push_bit 4 g OR r))"

definition argb32_to_bgra4444 :: "32 word \<Rightarrow> 16 word" where
  "argb32_to_bgra4444 col =
     (let a = drop_bit 4 (drop_bit 24 col AND 0xff);
          r = drop_bit 4 (drop_bit 16 col AND 0xff);
          g = drop_bit 4 (drop_bit 8 col AND 0xff);
          b = drop_bit 4 (col AND 0xff)
      in ucast (push_bit 12 b OR push_bit 8 g OR push_bit 4 r OR a))"

definition argb32_to_rgba4444 :: "32 word \<Rightarrow> 16 word" where
  "argb32_to_rgba4444 col =
     (let a = drop_bit 4 (drop_bit 24 col AND 0xff);
          r = drop_bit 4 (drop_bit 16 col AND 0xff);
          g = drop_bit 4 (drop_bit 8 col AND 0xff);
          b = drop_bit 4 (col AND 0xff)
      in ucast (push_bit 12 r OR push_bit 8 g OR push_bit 4 b OR a))"

section \<open>Frame buffer and rectangle primitives\<close>

text \<open>
  A frame buffer of \<open>fb_width \<times> fb_height\<close> texels is reached through the pointer
  \<^verbatim>\<open>data\<close>; the texel of column \<open>i\<close> and row \<open>j\<close> lives at offset
  \<open>j * fb_width + i\<close>. The memory behind \<^verbatim>\<open>data\<close> is modelled by a store from
  texel offsets to 16 bit values together with the set of offsets written so far, so
  that a write past the end of the buffer (an offset of \<open>fb_width * fb_height\<close> or
  more) is visible in the model.
\<close>

record fb_state =
  texels :: "nat \<Rightarrow> 16 word"
  written :: "nat set"

definition blank :: "nat \<Rightarrow> 16 word" where
  "blank = (\<lambda>_. 0)"

definition fb_init :: fb_state where
  "fb_init = \<lparr>texels = blank, written = {}\<rparr>"

definition RGUI_MAX_FB_WIDTH :: nat where
  "RGUI_MAX_FB_WIDTH = 426"

definition RGUI_NUM_PARTICLES :: nat where
  "RGUI_NUM_PARTICLES = 256"

text \<open>
  The frame buffers of the menu are allocated with \<open>fb_width * fb_height\<close> texels
  (a product taken in \<^verbatim>\<open>unsigned\<close>), their width never exceeds
  \<^verbatim>\<open>RGUI_MAX_FB_WIDTH\<close>, the capacity of the scanline arrays of
  \<^verbatim>\<open>rgui_fill_rect\<close>, and both dimensions are cast to \<^verbatim>\<open>int\<close>
  by \<^verbatim>\<open>rgui_draw_particle\<close>.
\<close>

definition frame_buf_ok :: "32 word \<Rightarrow> 32 word \<Rightarrow> bool" where
  "frame_buf_ok fb_width fb_height \<longleftrightarrow>
     unat fb_width \<le> RGUI_MAX_FB_WIDTH \<and> unat fb_height < 2 ^ 31 \<and>
     unat fb_width * unat fb_height < 2 ^ 32"

text \<open>\<^verbatim>\<open>*(ptr + off) = v\<close>\<close>

definition write_texel :: "nat \<Rightarrow> 16 word \<Rightarrow> fb_state \<Rightarrow> fb_state" where
  "write_texel off v s =
     s\<lparr>texels := (texels s)(off := v), written := insert off (written s)\<rparr>"

text \<open>
  \<^verbatim>\<open>memcpy(data + dst, src + src_off, n * sizeof(uint16_t))\<close>, the source being
  an array that does not overlap the frame buffer.
\<close>

definition memcpy_texels :: "nat \<Rightarrow> (nat \<Rightarrow> 16 word) \<Rightarrow> nat \<Rightarrow> nat \<Rightarrow> fb_state \<Rightarrow> fb_state" where
  "memcpy_texels dst src src_off n s =
     s\<lparr>texels := (\<lambda>off. if dst \<le> off \<and> off < dst + n
                         then src (src_off + (off - dst)) else texels s off),
       written := written s \<union> {dst..<dst + n}\<rparr>"

text \<open>
  The values of the counter of \<^verbatim>\<open>for (i = lo; i < hi; i++)\<close> on
  \<^verbatim>\<open>unsigned\<close>: the increment cannot wrap, since \<open>i < hi\<close> holds before it.
\<close>

definition word_range :: "32 word \<Rightarrow> 32 word \<Rightarrow> 32 word list" where
  "word_range lo hi = map of_nat [unat lo..<unat hi]"

definition rgui_color_rect ::
  "fb_state \<Rightarrow> 32 word \<Rightarrow> 32 word \<Rightarrow> 32 word \<Rightarrow> 32 word \<Rightarrow> 32 word \<Rightarrow> 32 word \<Rightarrow> 16 word
     \<Rightarrow> fb_state" where
  "rgui_color_rect data fb_width fb_height x y width height color =
     (let x_start = (if x \<le> fb_width then x else fb_width);
          y_start = (if y \<le> fb_height then y else fb_height);
          x_end = x + width;
          y_end = y + height;
          x_end = (if x_end \<le> fb_width then x_end else fb_width);
          y_end = (if y_end \<le> fb_height then y_end else fb_height)
      in fold (\<lambda>y_index.
                 fold (\<lambda>x_index. write_texel (unat (y_index * fb_width) + unat x_index) color)
                      (word_range x_start x_end))
              (word_range y_start y_end) data)"

text \<open>
  \<^verbatim>\<open>rgui_draw_particle\<close>: \<open>x\<close> and \<open>y\<close> are \<^verbatim>\<open>int\<close>, read here
  with \<open>sint\<close>; \<^verbatim>\<open>x + width\<close> is computed in \<^verbatim>\<open>unsigned\<close> and
  converted back to \<^verbatim>\<open>int\<close>. The result is the returned flag and the store.
\<close>

definition rgui_draw_particle ::
  "fb_state \<Rightarrow> 32 word \<Rightarrow> 32 word \<Rightarrow> 32 word \<Rightarrow> 32 word \<Rightarrow> 32 word \<Rightarrow> 32 word \<Rightarrow> 16 word
     \<Rightarrow> bool \<times> fb_state" where
  "rgui_draw_particle data fb_width fb_height x y width height color =
     (let x_start = (if 0 < sint x then x else 0);
          y_start = (if 0 < sint y then y else 0);
          x_end = x + width;
          y_end = y + height;
          x_start = (if sint x_start \<le> sint fb_width then x_start else fb_width);
          y_start = (if sint y_start \<le> sint fb_height then y_start else fb_height);
          x_end = (if 0 < sint x_end then x_end else 0);
          x_end = (if sint x_end \<le> sint fb_width then x_end else fb_width);
          y_end = (if 0 < sint y_end then y_end else 0);
          y_end = (if sint y_end \<le> sint fb_height then y_end else fb_height)
      in (sint x_start < sint x_end \<and> sint y_start < sint y_end,
          fold (\<lambda>y_index.
                  fold (\<lambda>x_index. write_texel (unat (y_index * fb_width) + unat x_index) color)
                       (word_range x_start x_end))
               (word_range y_start y_end) data))"

text \<open>
  \<^verbatim>\<open>rgui_fill_rect\<close>. The loops that copy every second or every fourth row
  advance their counter by 2 or 4, which can wrap; they are kept as loops on
  \<^verbatim>\<open>unsigned\<close>, \<open>None\<close> standing for a loop that does not end.
\<close>

partial_function (option) copy_rows ::
  "32 word \<Rightarrow> 32 word \<Rightarrow> 32 word \<Rightarrow> (32 word \<Rightarrow> fb_state \<Rightarrow> fb_state) \<Rightarrow> fb_state
     \<Rightarrow> fb_state option" where
  "copy_rows stp y_index y_end body s =
     (if y_index < y_end then copy_rows stp (y_index + stp) y_end body (body y_index s)
      else Some s)"

definition populate ::
  "(32 word \<Rightarrow> 16 word) \<Rightarrow> 32 word \<Rightarrow> 32 word \<Rightarrow> (nat \<Rightarrow> 16 word) \<Rightarrow> (nat \<Rightarrow> 16 word)" where
  "populate f x_start x_end scanline =
     fold (\<lambda>x_index sc. sc(unat x_index := f x_index)) (word_range x_start x_end) scanline"

text \<open>
  \<^verbatim>\<open>memcpy(dst + (y_index * fb_width), src, x_size)\<close> with
  \<^verbatim>\<open>dst = data + x_start\<close> and \<^verbatim>\<open>src = scanline + x_start\<close>;
  \<^verbatim>\<open>y_index * fb_width\<close> is a product in \<^verbatim>\<open>unsigned\<close>, and
  \<open>x_size\<close> is a \<^verbatim>\<open>size_t\<close> of 64 bits that counts bytes.
\<close>

definition copy_row ::
  "32 word \<Rightarrow> 32 word \<Rightarrow> 64 word \<Rightarrow> (nat \<Rightarrow> 16 word) \<Rightarrow> 32 word \<Rightarrow> fb_state \<Rightarrow> fb_state" where
  "copy_row fb_width x_start x_size src y_index =
     memcpy_texels (unat x_start + unat (y_index * fb_width)) src (unat x_start)
       (unat x_size div 2)"

text \<open>
  The three branches of \<^verbatim>\<open>rgui_fill_rect\<close>. The two scanline arrays are
  uninitialised locals: their contents at entry are the parameters \<open>scanline_even\<close>
  and \<open>scanline_odd\<close>. The pointers \<^verbatim>\<open>src_a\<close> \<dots> \<^verbatim>\<open>src_d\<close>
  point into these arrays, so what \<^verbatim>\<open>memcpy\<close> reads through them is the
  populated contents.
\<close>

definition fill_rect_solid ::
  "(nat \<Rightarrow> 16 word) \<Rightarrow> fb_state \<Rightarrow> 32 word \<Rightarrow> 32 word \<Rightarrow> 32 word \<Rightarrow> 32 word \<Rightarrow> 32 word
     \<Rightarrow> 64 word \<Rightarrow> 16 word \<Rightarrow> fb_state option" where
  "fill_rect_solid scanline_even data fb_width x_start y_start x_end y_end x_size dark_color =
     (let scanline_even = populate (\<lambda>_. dark_color) x_start x_end scanline_even
      in Some (fold (copy_row fb_width x_start x_size scanline_even)
                 (word_range y_start y_end) data))"

definition fill_rect_thick ::
  "(nat \<Rightarrow> 16 word) \<Rightarrow> (nat \<Rightarrow> 16 word) \<Rightarrow> fb_state \<Rightarrow> 32 word \<Rightarrow> 32 word \<Rightarrow> 32 word
     \<Rightarrow> 32 word \<Rightarrow> 32 word \<Rightarrow> 64 word \<Rightarrow> 16 word \<Rightarrow> 16 word \<Rightarrow> fb_state option" where
  "fill_rect_thick scanline_even scanline_odd data fb_width x_start y_start x_end y_end x_size
       dark_color light_color =
     (let scanline_even =
            populate (\<lambda>x_index. if drop_bit 1 x_index AND 1 = 0 then dark_color else light_color)
              x_start x_end scanline_even;
          scanline_odd =
            populate (\<lambda>x_index. if drop_bit 1 x_index AND 1 = 0 then light_color else dark_color)
              x_start x_end scanline_odd;
          (src_a, src_b, src_c, src_d) =
            (if y_start AND 3 = 1 then (scanline_even, scanline_odd, scanline_odd, scanline_even)
             else if y_start AND 3 = 2 then (scanline_odd, scanline_odd, scanline_even, scanline_even)
             else if y_start AND 3 = 3 then (scanline_odd, scanline_even, scanline_even, scanline_odd)
             else (scanline_even, scanline_even, scanline_odd, scanline_odd))
      in Option.bind (copy_rows 4 y_start y_end (copy_row fb_width x_start x_size src_a) data)
           (\<lambda>data.
         Option.bind (copy_rows 4 (y_start + 1) y_end (copy_row fb_width x_start x_size src_b) data)
           (\<lambda>data.
         Option.bind (copy_rows 4 (y_start + 2) y_end (copy_row fb_width x_start x_size src_c) data)
           (\<lambda>data.
         copy_rows 4 (y_start + 3) y_end (copy_row fb_width x_start x_size src_d) data))))"

definition fill_rect_thin ::
  "(nat \<Rightarrow> 16 word) \<Rightarrow> (nat \<Rightarrow> 16 word) \<Rightarrow> fb_state \<Rightarrow> 32 word \<Rightarrow> 32 word \<Rightarrow> 32 word
     \<Rightarrow> 32 word \<Rightarrow> 32 word \<Rightarrow> 64 word \<Rightarrow> 16 word \<Rightarrow> 16 word \<Rightarrow> fb_state option" where
  "fill_rect_thin scanline_even scanline_odd data fb_width x_start y_start x_end y_end x_size
       dark_color light_color =
     (let scanline_even =
            populate (\<lambda>x_index. if x_index AND 1 = 0 then dark_color else light_color)
              x_start x_end scanline_even;
          scanline_odd =
            populate (\<lambda>x_index. if x_index AND 1 = 0 then light_color else dark_color)
              x_start x_end scanline_odd;
          (src_a, src_b) =
            (if y_start AND 1 = 0 then (scanline_even, scanline_odd)
             else (scanline_odd, scanline_even))
      in Option.bind (copy_rows 2 y_start y_end (copy_row fb_width x_start x_size src_a) data)
           (\<lambda>data.
         copy_rows 2 (y_start + 1) y_end (copy_row fb_width x_start x_size src_b) data))"

definition rgui_fill_rect ::
  "(nat \<Rightarrow> 16 word) \<Rightarrow> (nat \<Rightarrow> 16 word) \<Rightarrow> fb_state \<Rightarrow> 32 word \<Rightarrow> 32 word \<Rightarrow> 32 word \<Rightarrow> 32 word
     \<Rightarrow> 32 word \<Rightarrow> 32 word \<Rightarrow> 16 word \<Rightarrow> 16 word \<Rightarrow> bool \<Rightarrow> fb_state option" where
  "rgui_fill_rect scanline_even scanline_odd data fb_width fb_height x y width height
       dark_color light_color thickness =
     (let x_start = (if x \<le> fb_width then x else fb_width);
          y_start = (if y \<le> fb_height then y else fb_height);
          x_end = x + width;
          y_end = y + height;
          x_end = (if x_end \<le> fb_width then x_end else fb_width);
          y_end = (if y_end \<le> fb_height then y_end else fb_height);
          x_size = (ucast (x_end - x_start) :: 64 word) * 2
      in if x_size = 0 then Some data
         else if dark_color = light_color then
           fill_rect_solid scanline_even data fb_width x_start y_start x_end y_end x_size
             dark_color
         else if thickness then
           fill_rect_thick scanline_even scanline_odd data fb_width x_start y_start x_end y_end
             x_size dark_color light_color
         else
           fill_rect_thin scanline_even scanline_odd data fb_width x_start y_start x_end y_end
             x_size dark_color light_color)"

text \<open>Whether a call ended having written the texel at offset \<open>off\<close>.\<close>

definition wrote_at :: "fb_state option \<Rightarrow> nat \<Rightarrow> bool" where
  "wrote_at r off = (case r of None \<Rightarrow> False | Some s \<Rightarrow> off \<in> written s)"

text \<open>
  Two notions for stating what the loops do: the offsets of the columns \<open>xs \<dots> xe - 1\<close>
  of a set of rows, and a store in which a set of offsets has been overwritten.
\<close>

definition texel_rows :: "nat \<Rightarrow> nat \<Rightarrow> nat \<Rightarrow> nat set \<Rightarrow> nat set" where
  "texel_rows W xs xe J = {j * W + i | i j. j \<in> J \<and> xs \<le> i \<and> i < xe}"

definition paint :: "nat set \<Rightarrow> (nat \<Rightarrow> 16 word) \<Rightarrow> fb_state \<Rightarrow> fb_state" where
  "paint A f s =
     s\<lparr>texels := (\<lambda>off. if off \<in> A then f off else texels s off), written := written s \<union> A\<rparr>"

section \<open>Particle effects\<close>

datatype particle_effect =
    RGUI_PARTICLE_EFFECT_NONE
  | RGUI_PARTICLE_EFFECT_SNOW
  | RGUI_PARTICLE_EFFECT_SNOW_ALT
  | RGUI_PARTICLE_EFFECT_RAIN
  | RGUI_PARTICLE_EFFECT_VORTEX
  | RGUI_PARTICLE_EFFECT_STARFIELD

text \<open>
  \<^verbatim>\<open>rgui_particle_t\<close>: four \<^verbatim>\<open>float\<close> fields \<open>a\<close>, \<open>b\<close>, \<open>c\<close>,
  \<open>d\<close>, whose meaning depends on the effect (for snow: x position, y position, x
  velocity, y velocity; for rain: x position, y position, drop length, drop speed).
\<close>

record rgui_particle_t =
  p_a :: rat
  p_b :: rat
  p_c :: rat
  p_d :: rat

text \<open>
  \<^verbatim>\<open>fmod(x, y)\<close>: the remainder of the division truncated towards zero, which
  has the sign of \<open>x\<close> and is exact; for \<open>y = 0\<close> the C function yields NaN, which is
  \<open>None\<close> here. \<^verbatim>\<open>(int)v\<close> truncates towards zero; the result is read with
  \<open>sint\<close>.
\<close>

definition c_fmod :: "rat \<Rightarrow> rat \<Rightarrow> rat option" where
  "c_fmod x y = (if y = 0 then None else Some (x - y * of_int (c_trunc (x / y))))"

definition to_int :: "rat \<Rightarrow> 32 word" where
  "to_int v = word_of_int (c_trunc v)"

text \<open>
  \<^verbatim>\<open>rand()\<close> is modelled by the sequence \<open>rand\<close> of the values it returns and
  the number \<open>k\<close> of calls made so far. The state threaded through the particle loops
  is that number and the frame buffer.
\<close>

type_synonym loop_state = "nat \<times> fb_state"

text \<open>
  \<^verbatim>\<open>for (i = ...; i < ...; i++) { particle = &rgui->particles[i]; ... }\<close>: the
  body reads the particle of index \<open>i\<close> and stores it back; a body that does not yield
  a value ends the loop with \<open>None\<close>.
\<close>

fun particle_loop ::
  "(nat \<Rightarrow> rgui_particle_t \<Rightarrow> loop_state \<Rightarrow> (rgui_particle_t \<times> loop_state) option) \<Rightarrow> nat list
     \<Rightarrow> rgui_particle_t list \<Rightarrow> loop_state \<Rightarrow> (rgui_particle_t list \<times> loop_state) option" where
  "particle_loop body [] particles st = Some (particles, st)"
| "particle_loop body (i # is) particles st =
     (case body i (particles ! i) st of
        None \<Rightarrow> None
      | Some (particle, st) \<Rightarrow> particle_loop body is (particles[i := particle]) st)"

subsection \<open>Snow\<close>

text \<open>
  The snow branch of \<^verbatim>\<open>rgui_init_particle_effect\<close> for one particle, from four
  values of \<^verbatim>\<open>rand()\<close>; \<^verbatim>\<open>rand() % fb_width\<close> is a remainder in
  \<^verbatim>\<open>unsigned\<close>, undefined for a width of 0.
\<close>

definition init_snow_particle ::
  "32 word \<Rightarrow> 32 word \<Rightarrow> nat \<Rightarrow> nat \<Rightarrow> nat \<Rightarrow> nat \<Rightarrow> rgui_particle_t option" where
  "init_snow_particle fb_width fb_height r1 r2 r3 r4 =
     (if fb_width = 0 \<or> fb_height = 0 then None
      else Some \<lparr>p_a = f32 (of_unsigned (of_nat r1 mod fb_width)),
                 p_b = f32 (of_unsigned (of_nat r2 mod fb_height)),
                 p_c = f32 (f32 (of_int (int (r3 mod 64) - 16)) * f32 (1 / 10)),
                 p_d = f32 (f32 (of_int (int (r4 mod 64) - 48)) * f32 (1 / 10))\<rparr>)"

definition snow_particle_size :: "particle_effect \<Rightarrow> nat \<Rightarrow> 32 word" where
  "snow_particle_size effect i =
     (if effect = RGUI_PARTICLE_EFFECT_SNOW_ALT
      then (if i AND 2 = 0 then 2 else if i AND 7 = 7 then 3 else 1)
      else 1)"

text \<open>The clamp of the two velocity components.\<close>

definition snow_clamp_c :: "rat \<Rightarrow> rat" where
  "snow_clamp_c c =
     (let c = (if c < - f32 (4 / 10) then - f32 (4 / 10) else c)
      in if f32 (1 / 10) < c then f32 (1 / 10) else c)"

definition snow_clamp_d :: "rat \<Rightarrow> rat" where
  "snow_clamp_d d =
     (let d = (if d < - f32 (1 / 10) then - f32 (1 / 10) else d)
      in if f32 (4 / 10) < d then f32 (4 / 10) else d)"

text \<open>
  The body of the snow loop of \<^verbatim>\<open>rgui_render_particle_effect\<close> for the particle
  of index \<open>i\<close>; \<open>r1\<close> and \<open>r2\<close> are the two values of \<^verbatim>\<open>rand()\<close> it
  draws. \<open>global_speed_factor\<close> is the \<^verbatim>\<open>float\<close> computed at the start of
  the function from the settings and the frame time.
\<close>

definition snow_particle ::
  "particle_effect \<Rightarrow> 16 word \<Rightarrow> rat \<Rightarrow> 32 word \<Rightarrow> 32 word \<Rightarrow> nat \<Rightarrow> nat \<Rightarrow> nat
     \<Rightarrow> rgui_particle_t \<Rightarrow> fb_state \<Rightarrow> (rgui_particle_t \<times> fb_state) option" where
  "snow_particle effect particle_color global_speed_factor fb_width fb_height i r1 r2
       particle data =
     (let c = f32 (p_c particle + f32 (f32 (of_int (int (r1 mod 16) - 9)) * f32 (1 / 100)));
          d = f32 (p_d particle + f32 (f32 (of_int (int (r2 mod 16) - 7)) * f32 (1 / 100)));
          c = snow_clamp_c c;
          d = snow_clamp_d d
      in case c_fmod (f32 (p_a particle + f32 (global_speed_factor * c))) (of_unsigned fb_width) of
           None \<Rightarrow> None
         | Some a \<Rightarrow>
        (case c_fmod (f32 (p_b particle + f32 (global_speed_factor * d))) (of_unsigned fb_height) of
           None \<Rightarrow> None
         | Some b \<Rightarrow>
             (let a = f32 a;
                  b = f32 b;
                  particle_size = snow_particle_size effect i;
                  (on_screen, data) =
                    rgui_draw_particle data fb_width fb_height (to_int a) (to_int b)
                      particle_size particle_size particle_color;
                  a = (if \<not> on_screen \<and> a < 0 then f32 (a + f32 (of_unsigned fb_width)) else a);
                  b = (if \<not> on_screen \<and> b < 0 then f32 (b + f32 (of_unsigned fb_height)) else b)
              in Some (\<lparr>p_a = a, p_b = b, p_c = c, p_d = d\<rparr>, data))))"

text \<open>One call of \<^verbatim>\<open>rgui_render_particle_effect\<close> with a snow effect selected.\<close>

definition render_snow ::
  "(nat \<Rightarrow> nat) \<Rightarrow> particle_effect \<Rightarrow> 16 word \<Rightarrow> rat \<Rightarrow> 32 word \<Rightarrow> 32 word
     \<Rightarrow> rgui_particle_t list \<Rightarrow> loop_state \<Rightarrow> (rgui_particle_t list \<times> loop_state) option" where
  "render_snow rand effect particle_color global_speed_factor fb_width fb_height particles st =
     particle_loop
       (\<lambda>i particle (k, data).
          map_option (\<lambda>(particle, data). (particle, (k + 2, data)))
            (snow_particle effect particle_color global_speed_factor fb_width fb_height i
               (rand k) (rand (k + 1)) particle data))
       [0..<RGUI_NUM_PARTICLES] particles st"

text \<open>
  Successive calls, one per frame as the host makes them, each with the
  \<open>global_speed_factor\<close> of its frame.
\<close>

fun render_snow_frames ::
  "(nat \<Rightarrow> nat) \<Rightarrow> particle_effect \<Rightarrow> 16 word \<Rightarrow> 32 word \<Rightarrow> 32 word \<Rightarrow> rat list
     \<Rightarrow> rgui_particle_t list \<Rightarrow> loop_state \<Rightarrow> (rgui_particle_t list \<times> loop_state) option" where
  "render_snow_frames rand effect particle_color fb_width fb_height [] particles st =
     Some (particles, st)"
| "render_snow_frames rand effect particle_color fb_width fb_height (speed # speeds) particles st =
     (case render_snow rand effect particle_color speed fb_width fb_height particles st of
        None \<Rightarrow> None
      | Some (particles, st) \<Rightarrow>
          render_snow_frames rand effect particle_color fb_width fb_height speeds particles st)"

subsection \<open>Rain\<close>

definition weights :: "nat list" where
  "weights =
     [2, 2, 2, 2, 2, 2, 2, 2, 2, 2, 2, 2, 2,
      3, 3, 3, 3, 3, 3, 3, 3, 3, 3, 3, 3,
      4, 4, 4, 4, 4, 4, 4, 4, 4, 4, 4,
      5, 5, 5, 5, 5, 5, 5, 5,
      6, 6, 6, 6, 6, 6,
      7, 7, 7, 7,
      8, 8, 8,
      9, 9,
      10]"

text \<open>
  The number of active drops, computed in \<^verbatim>\<open>float\<close> by both
  \<^verbatim>\<open>rgui_init_particle_effect\<close> and \<^verbatim>\<open>rgui_render_particle_effect\<close>.
\<close>

definition rain_num_drops :: "32 word \<Rightarrow> 32 word" where
  "rain_num_drops fb_width =
     (let num_drops =
            to_unsigned
              (f32 (f32 (f32 (85 / 100) *
                          f32 (f32 (of_unsigned fb_width) / f32 (of_nat RGUI_MAX_FB_WIDTH))) *
                    f32 (of_nat RGUI_NUM_PARTICLES)))
      in if num_drops < of_nat RGUI_NUM_PARTICLES then num_drops else of_nat RGUI_NUM_PARTICLES)"

text \<open>
  The body of the rain loop of \<^verbatim>\<open>rgui_render_particle_effect\<close>; a drop that
  was drawn off screen is respawned from three values of \<^verbatim>\<open>rand()\<close>.
  \<^verbatim>\<open>rand() % (fb_width / 3)\<close> is a remainder in \<^verbatim>\<open>unsigned\<close>, undefined
  for a width below 3.
\<close>

definition rain_particle ::
  "(nat \<Rightarrow> nat) \<Rightarrow> 16 word \<Rightarrow> rat \<Rightarrow> 32 word \<Rightarrow> 32 word \<Rightarrow> rgui_particle_t \<Rightarrow> loop_state
     \<Rightarrow> (rgui_particle_t \<times> loop_state) option" where
  "rain_particle rand particle_color global_speed_factor fb_width fb_height particle st =
     (let (k, data) = st;
          (on_screen, data) =
            rgui_draw_particle data fb_width fb_height (to_int (p_a particle))
              (to_int (p_b particle)) 2 (to_unsigned (p_c particle)) particle_color;
          particle = particle\<lparr>p_b := f32 (p_b particle + f32 (p_d particle * global_speed_factor))\<rparr>
      in if on_screen then Some (particle, (k, data))
         else if fb_width div 3 = 0 then None
         else
           (let a = f32 (f32 (of_unsigned (of_nat (rand k) mod (fb_width div 3))) * 3);
                c = f32 (of_nat (weights ! (rand (k + 1) mod 60)));
                d = f32 (f32 (c / f32 12) *
                         f32 (f32 (1 / 2) +
                              f32 (f32 (of_nat (rand (k + 2) mod 150)) / f32 200)))
            in Some (\<lparr>p_a = a, p_b = 0, p_c = c, p_d = d\<rparr>, (k + 3, data))))"

text \<open>One call of \<^verbatim>\<open>rgui_render_particle_effect\<close> with the rain effect selected.\<close>

definition render_rain ::
  "(nat \<Rightarrow> nat) \<Rightarrow> 16 word \<Rightarrow> rat \<Rightarrow> 32 word \<Rightarrow> 32 word
     \<Rightarrow> rgui_particle_t list \<Rightarrow> loop_state \<Rightarrow> (rgui_particle_t list \<times> loop_state) option" where
  "render_rain rand particle_color global_speed_factor fb_width fb_height particles st =
     particle_loop
       (\<lambda>i. rain_particle rand particle_color global_speed_factor fb_width fb_height)
       [0..<unat (rain_num_drops fb_width)] particles st"

text \<open>A field of \<open>n\<close> bits of a packed pixel, starting at bit \<open>lo\<close>.\<close>

definition field :: "16 word \<Rightarrow> nat \<Rightarrow> nat \<Rightarrow> 32 word" where
  "field px lo n = take_bit n (ucast (drop_bit lo px))"

section \<open>Rounding\<close>

lemma ilog2_nat_bounds:
  "0 < n \<Longrightarrow> 2 ^ ilog2_nat n \<le> n \<and> n < 2 ^ Suc (ilog2_nat n)"
proof (induction n rule: ilog2_nat.induct)
  case (1 n)
  show ?case
  proof (cases "n < 2")
    case True
    with 1(2) have "n = 1" by simp
    then show ?thesis by (simp add: ilog2_nat.simps)
  next
    case False
    then have pos: "0 < n div 2" by simp
    have eq: "ilog2_nat n = Suc (ilog2_nat (n div 2))"
      using False by (subst ilog2_nat.simps) simp
    from 1(1)[OF False pos]
    have lo: "2 ^ ilog2_nat (n div 2) \<le> n div 2"
      and hi: "n div 2 < 2 ^ Suc (ilog2_nat (n div 2))" by simp_all
    have "2 * 2 ^ ilog2_nat (n div 2) \<le> 2 * (n div 2)" using lo by simp
    also have "\<dots> \<le> n" by simp
    finally have a: "2 ^ ilog2_nat n \<le> n" by (simp add: eq)
    have "n < 2 * (n div 2 + 1)" by presburger
    also have "\<dots> \<le> 2 * 2 ^ Suc (ilog2_nat (n div 2))" using hi by simp
    finally have b: "n < 2 ^ Suc (ilog2_nat n)" by (simp add: eq)
    from a b show ?thesis by simp
  qed
qed

lemma ilog2_ge1:
  fixes x :: rat
  assumes "1 \<le> x"
  shows "2 powi ilog2 x \<le> x \<and> x < 2 powi (ilog2 x + 1)"
proof -
  let ?n = "nat \<lfloor>x\<rfloor>"
  let ?k = "ilog2_nat ?n"
  have fl: "1 \<le> \<lfloor>x\<rfloor>" using assms by simp
  then have npos: "0 < ?n" by simp
  have e: "ilog2 x = int ?k" using assms by (simp add: ilog2_def)
  from ilog2_nat_bounds[OF npos]
  have lo: "2 ^ ?k \<le> ?n" and hi: "?n < 2 ^ Suc ?k" by simp_all
  have nx: "(of_nat ?n :: rat) = of_int \<lfloor>x\<rfloor>" using fl by simp
  have "(2::rat) ^ ?k = of_nat (2 ^ ?k)" by simp
  also have "\<dots> \<le> of_nat ?n" using lo by (simp only: of_nat_le_iff)
  also have "\<dots> \<le> x" by (simp add: nx)
  finally have a: "(2::rat) ^ ?k \<le> x" .
  have "Suc ?n \<le> 2 ^ Suc ?k" using hi by simp
  then have "(of_nat (Suc ?n) :: rat) \<le> of_nat (2 ^ Suc ?k)" by (simp only: of_nat_le_iff)
  then have h: "of_int \<lfloor>x\<rfloor> + 1 \<le> (2::rat) ^ Suc ?k" using nx by simp
  have "x < of_int \<lfloor>x\<rfloor> + 1" by linarith
  with h have b: "x < (2::rat) ^ Suc ?k" by linarith
  have p1: "(2::rat) powi (int ?k) = 2 ^ ?k" by simp
  have p2: "(2::rat) powi (int ?k + 1) = 2 ^ Suc ?k"
    by (metis of_nat_Suc power_int_of_nat add.commute)
  show ?thesis using a b by (simp only: e p1 p2)
qed

lemma ilog2_bounds:
  fixes x :: rat
  assumes "0 < x"
  shows "2 powi ilog2 x \<le> x \<and> x < 2 powi (ilog2 x + 1)"
proof (cases "1 \<le> x")
  case True
  then show ?thesis by (rule ilog2_ge1)
next
  case False
  then have x1: "x < 1" by simp
  let ?y = "1 / x"
  have y1: "1 \<le> ?y" using assms x1 by (simp add: field_simps)
  let ?k = "int (ilog2_nat (nat \<lfloor>?y\<rfloor>))"
  have ky: "ilog2 ?y = ?k" using y1 by (simp add: ilog2_def)
  from ilog2_ge1[OF y1] have lo: "2 powi ?k \<le> ?y" and hi: "?y < 2 powi (?k + 1)"
    by (simp_all only: ky)
  have pk: "0 < (2::rat) powi ?k" and pk1: "0 < (2::rat) powi (?k + 1)" by simp_all
  have up: "x * 2 powi ?k \<le> 1"
    using lo assms pk by (simp add: field_simps)
  have dn: "1 < x * 2 powi (?k + 1)"
    using hi assms pk1 by (simp add: field_simps)
  have m1: "(2::rat) powi (- ?k) = 1 / 2 powi ?k" by (rule power_int_minus_divide)
  have m2: "(2::rat) powi (- ?k - 1) = 1 / 2 powi (?k + 1)"
    using power_int_minus_divide[of "2::rat" "?k + 1"] by simp
  show ?thesis
  proof (cases "x * 2 powi ?k = 1")
    case True
    then have e: "ilog2 x = - ?k" using x1 by (simp add: ilog2_def Let_def)
    have xe: "x = 2 powi (- ?k)" using True pk by (simp add: m1 field_simps)
    have "(2::rat) powi (- ?k) < 2 powi (- ?k + 1)"
      by (rule power_int_strict_increasing) simp_all
    then show ?thesis using xe e by simp
  next
    case False
    then have e: "ilog2 x = - ?k - 1" using x1 by (simp add: ilog2_def Let_def)
    have a: "2 powi (- ?k - 1) \<le> x" using dn pk1 by (simp add: m2 field_simps)
    have "x * 2 powi ?k < 1" using up False by simp
    then have b: "x < 2 powi (- ?k)" using pk by (simp add: m1 field_simps)
    show ?thesis using a b e by simp
  qed
qed

lemma round_even_err: "\<bar>of_int (round_even y) - y\<bar> \<le> 1 / 2"
proof -
  have "of_int \<lfloor>y\<rfloor> \<le> y" "y < of_int \<lfloor>y\<rfloor> + 1" by linarith+
  then show ?thesis by (auto simp add: round_even_def Let_def)
qed

lemma round_even_of_int [simp]: "round_even (of_int n) = n"
  by (simp add: round_even_def)

lemma round_even_range: "\<lfloor>y\<rfloor> \<le> round_even y \<and> round_even y \<le> \<lfloor>y\<rfloor> + 1"
  by (simp add: round_even_def Let_def)

lemma round_even_mono: "y \<le> z \<Longrightarrow> round_even y \<le> round_even z"
proof -
  assume yz: "y \<le> z"
  then have fl: "\<lfloor>y\<rfloor> \<le> \<lfloor>z\<rfloor>" by (rule floor_mono)
  show ?thesis
  proof (cases "\<lfloor>y\<rfloor> = \<lfloor>z\<rfloor>")
    case True
    then show ?thesis using yz by (auto simp add: round_even_def Let_def)
  next
    case False
    with fl have "\<lfloor>y\<rfloor> + 1 \<le> \<lfloor>z\<rfloor>" by simp
    then show ?thesis using round_even_range[of y] round_even_range[of z] by linarith
  qed
qed


lemma fl_round_err:
  assumes "x \<noteq> 0"
  shows "\<bar>fl_round p x - x\<bar> \<le> 2 powi (ilog2 \<bar>x\<bar> - int p)"
proof -
  define u :: rat where "u = 2 powi (ilog2 \<bar>x\<bar> - int p + 1)"
  have upos: "0 < u" by (simp add: u_def)
  have fl: "fl_round p x = of_int (round_even (x / u)) * u"
    using assms by (simp add: fl_round_def u_def Let_def)
  have "fl_round p x - x = (of_int (round_even (x / u)) - x / u) * u"
    using upos by (simp add: fl field_simps)
  then have "\<bar>fl_round p x - x\<bar> = \<bar>of_int (round_even (x / u)) - x / u\<bar> * u"
    using upos by (simp add: abs_mult)
  also have "\<dots> \<le> (1 / 2) * u"
    using round_even_err[of "x / u"] upos by (intro mult_right_mono) simp_all
  also have "\<dots> = 2 powi (ilog2 \<bar>x\<bar> - int p)"
    unfolding u_def by (simp add: power_int_add)
  finally show ?thesis .
qed

lemma fl_round_rel:
  assumes "x \<noteq> 0"
  shows "\<bar>fl_round p x - x\<bar> \<le> \<bar>x\<bar> * 2 powi (- int p)"
proof -
  have "0 < \<bar>x\<bar>" using assms by simp
  from ilog2_bounds[OF this] have lo: "2 powi ilog2 \<bar>x\<bar> \<le> \<bar>x\<bar>" by simp
  have "(2::rat) powi (ilog2 \<bar>x\<bar> - int p) = 2 powi ilog2 \<bar>x\<bar> * 2 powi (- int p)"
    using power_int_add[of "2::rat" "ilog2 \<bar>x\<bar>" "- int p"] by simp
  also have "\<dots> \<le> \<bar>x\<bar> * 2 powi (- int p)"
    using lo by (intro mult_right_mono) simp_all
  finally show ?thesis using fl_round_err[OF assms, of p] by linarith
qed

lemma ilog2_less:
  fixes x :: rat
  assumes "0 < x" "x < 2 powi n"
  shows "ilog2 x < n"
proof (rule ccontr)
  assume "\<not> ilog2 x < n"
  then have "n \<le> ilog2 x" by simp
  then have "(2::rat) powi n \<le> 2 powi ilog2 x" by (intro power_int_increasing) simp_all
  with ilog2_bounds[OF assms(1)] assms(2) show False by linarith
qed

lemma fl_round_exact:
  assumes "\<bar>m\<bar> < 2 ^ p"
  shows "fl_round p (of_int m * 2 powi k) = of_int m * 2 powi k"
proof (cases "m = 0")
  case True
  then show ?thesis by (simp add: fl_round_def)
next
  case False
  define x :: rat where "x = of_int m * 2 powi k"
  have xn: "x \<noteq> 0" using False by (simp add: x_def)
  have ax: "\<bar>x\<bar> = of_int \<bar>m\<bar> * 2 powi k" by (simp add: x_def abs_mult)
  have "(of_int \<bar>m\<bar> :: rat) < of_int (2 ^ p)" using assms by (simp only: of_int_less_iff)
  then have "\<bar>x\<bar> < 2 ^ p * 2 powi k" unfolding ax by (intro mult_strict_right_mono) simp_all
  also have "\<dots> = 2 powi (int p + k)" by (simp add: power_int_add)
  finally have "ilog2 \<bar>x\<bar> < int p + k" using xn by (intro ilog2_less) simp_all
  then obtain j :: nat where j: "int j = k + int p - 1 - ilog2 \<bar>x\<bar>"
    by (metis add.commute diff_ge_0_iff_ge nonneg_int_cases zle_diff1_eq)
  define u :: rat where "u = 2 powi (ilog2 \<bar>x\<bar> - int p + 1)"
  have upos: "0 < u" by (simp add: u_def)
  have "2 powi k = u * 2 powi (int j)"
    unfolding u_def j by (simp flip: power_int_add)
  then have xu: "x / u = of_int (m * 2 ^ j)" using upos by (simp add: x_def)
  have "fl_round p x = of_int (round_even (x / u)) * u"
    using xn by (simp add: fl_round_def u_def Let_def)
  also have "\<dots> = x / u * u" by (simp only: xu round_even_of_int)
  also have "\<dots> = x" using upos by simp
  finally show ?thesis by (simp add: x_def)
qed

lemma fl_round_of_int: "\<bar>m\<bar> < 2 ^ p \<Longrightarrow> fl_round p (of_int m) = of_int m"
  using fl_round_exact[of m p 0] by simp

lemma fl_round_of_nat: "n < 2 ^ p \<Longrightarrow> fl_round p (of_nat n) = of_nat n"
  using fl_round_of_int[of "int n" p] by (simp add: of_nat_less_numeral_power_cancel_iff flip: of_nat_power)

lemma fl_round_half: "\<bar>2 * m + 1\<bar> < 2 ^ p \<Longrightarrow> fl_round p (of_int m + 1 / 2) = of_int m + 1 / 2"
  using fl_round_exact[of "2 * m + 1" p "-1"] by (simp add: field_simps)

lemma fl_round_grid:
  assumes "x \<noteq> 0" "\<bar>x\<bar> < 2 ^ p"
  obtains j :: nat where "fl_round p x = of_int (round_even (x * 2 ^ j)) / 2 ^ j"
proof -
  have "\<bar>x\<bar> < 2 powi (int p)" using assms(2) by simp
  then have "ilog2 \<bar>x\<bar> < int p" using assms(1) by (intro ilog2_less) simp_all
  then obtain j :: nat where j: "int j = int p - 1 - ilog2 \<bar>x\<bar>"
    by (metis diff_ge_0_iff_ge nonneg_int_cases zle_diff1_eq)
  have "ilog2 \<bar>x\<bar> - int p + 1 = - int j" using j by simp
  then have "(2::rat) powi (ilog2 \<bar>x\<bar> - int p + 1) = 1 / 2 ^ j"
    by (simp add: power_int_minus_divide)
  then have "fl_round p x = of_int (round_even (x * 2 ^ j)) / 2 ^ j"
    using assms(1) by (simp add: fl_round_def Let_def)
  then show ?thesis by (rule that)
qed

lemma fl_round_le_int:
  assumes "\<bar>x\<bar> < 2 ^ p" "x \<le> of_int b"
  shows "fl_round p x \<le> of_int b"
proof (cases "x = 0")
  case True
  then show ?thesis using assms(2) by (simp add: fl_round_def)
next
  case False
  from fl_round_grid[OF False assms(1)] obtain j :: nat
    where fl: "fl_round p x = of_int (round_even (x * 2 ^ j)) / 2 ^ j" by blast
  have "x * 2 ^ j \<le> of_int (b * 2 ^ j)" using assms(2) by simp
  then have "round_even (x * 2 ^ j) \<le> round_even (of_int (b * 2 ^ j))" by (rule round_even_mono)
  then have "round_even (x * 2 ^ j) \<le> b * 2 ^ j" by (simp only: round_even_of_int)
  then have "(of_int (round_even (x * 2 ^ j)) :: rat) \<le> of_int (b * 2 ^ j)"
    by (simp only: of_int_le_iff)
  then show ?thesis unfolding fl by (simp add: field_simps)
qed

lemma fl_round_ge_int:
  assumes "\<bar>x\<bar> < 2 ^ p" "of_int a \<le> x"
  shows "of_int a \<le> fl_round p x"
proof (cases "x = 0")
  case True
  then show ?thesis using assms(2) by (simp add: fl_round_def)
next
  case False
  from fl_round_grid[OF False assms(1)] obtain j :: nat
    where fl: "fl_round p x = of_int (round_even (x * 2 ^ j)) / 2 ^ j" by blast
  have "of_int (a * 2 ^ j) \<le> x * 2 ^ j" using assms(2) by simp
  then have "round_even (of_int (a * 2 ^ j)) \<le> round_even (x * 2 ^ j)" by (rule round_even_mono)
  then have "a * 2 ^ j \<le> round_even (x * 2 ^ j)" by (simp only: round_even_of_int)
  then have "(of_int (a * 2 ^ j) :: rat) \<le> of_int (round_even (x * 2 ^ j))"
    by (simp only: of_int_le_iff)
  then show ?thesis unfolding fl by (simp add: field_simps)
qed

lemma fl_round_eq_0_iff:
  assumes "0 < p"
  shows "fl_round p x = 0 \<longleftrightarrow> x = 0"
proof
  assume z: "fl_round p x = 0"
  show "x = 0"
  proof (rule ccontr)
    assume xn: "x \<noteq> 0"
    then have "0 < \<bar>x\<bar>" by simp
    from ilog2_bounds[OF this] have lo: "2 powi ilog2 \<bar>x\<bar> \<le> \<bar>x\<bar>" by simp
    have lt: "(2::rat) powi (ilog2 \<bar>x\<bar> - int p) < 2 powi ilog2 \<bar>x\<bar>"
      using assms by (intro power_int_strict_increasing) simp_all
    from fl_round_err[OF xn, of p] z have "\<bar>x\<bar> \<le> 2 powi (ilog2 \<bar>x\<bar> - int p)" by simp
    with lo lt show False by linarith
  qed
next
  assume "x = 0" then show "fl_round p x = 0" by (simp add: fl_round_def)
qed

section \<open>Properties of the pixel format converters\<close>

lemma byte_mask: "(0xff::32 word) = mask 8"
  by (simp add: mask_eq_exp_minus_1)

lemma hi_nibbles_mask:
  "(0xF0F0F0F0::32 word) =
     push_bit 4 (mask 4) OR push_bit 12 (mask 4) OR push_bit 20 (mask 4) OR push_bit 28 (mask 4)"
  by (simp add: mask_eq_exp_minus_1)

lemma nibble_a: "drop_bit 4 (drop_bit 24 (c AND 0xF0F0F0F0) AND 0xff) = drop_bit 4 (drop_bit 24 c AND 0xff)"
  for c :: "32 word"
  unfolding hi_nibbles_mask byte_mask
  by (rule bit_word_eqI) (auto simp add: bit_simps dest: bit_imp_le_length)

lemma nibble_r: "drop_bit 4 (drop_bit 16 (c AND 0xF0F0F0F0) AND 0xff) = drop_bit 4 (drop_bit 16 c AND 0xff)"
  for c :: "32 word"
  unfolding hi_nibbles_mask byte_mask
  by (rule bit_word_eqI) (auto simp add: bit_simps dest: bit_imp_le_length)

lemma nibble_g: "drop_bit 4 (drop_bit 8 (c AND 0xF0F0F0F0) AND 0xff) = drop_bit 4 (drop_bit 8 c AND 0xff)"
  for c :: "32 word"
  unfolding hi_nibbles_mask byte_mask
  by (rule bit_word_eqI) (auto simp add: bit_simps dest: bit_imp_le_length)

lemma nibble_b: "drop_bit 4 ((c AND 0xF0F0F0F0) AND 0xff) = drop_bit 4 (c AND 0xff)"
  for c :: "32 word"
  unfolding hi_nibbles_mask byte_mask
  by (rule bit_word_eqI) (auto simp add: bit_simps dest: bit_imp_le_length)

lemma abgr4444_hi: "argb32_to_abgr4444 (c AND 0xF0F0F0F0) = argb32_to_abgr4444 c"
  unfolding argb32_to_abgr4444_def nibble_a nibble_r nibble_g nibble_b ..

lemma bgra4444_hi: "argb32_to_bgra4444 (c AND 0xF0F0F0F0) = argb32_to_bgra4444 c"
  unfolding argb32_to_bgra4444_def nibble_a nibble_r nibble_g nibble_b ..

lemma rgba4444_hi: "argb32_to_rgba4444 (c AND 0xF0F0F0F0) = argb32_to_rgba4444 c"
  unfolding argb32_to_rgba4444_def nibble_a nibble_r nibble_g nibble_b ..

text \<open>
  Claim C10. Each of the three converters with a 4 bit alpha channel depends only on
  the high 4 bits of every 8 bit channel of its input: two inputs that agree on bits
  7-4 of the channels A, R, G and B (that is, under the mask \<open>0xF0F0F0F0\<close>) are
  converted to the same 16 bit value.
\<close>

theorem converters_4444_ignore_low_nibbles:
  assumes "c1 AND 0xF0F0F0F0 = c2 AND 0xF0F0F0F0"
  shows "argb32_to_abgr4444 c1 = argb32_to_abgr4444 c2 \<and>
         argb32_to_bgra4444 c1 = argb32_to_bgra4444 c2 \<and>
         argb32_to_rgba4444 c1 = argb32_to_rgba4444 c2"
proof -
  have "argb32_to_abgr4444 c1 = argb32_to_abgr4444 (c1 AND 0xF0F0F0F0)"
    by (simp only: abgr4444_hi)
  also have "\<dots> = argb32_to_abgr4444 c2" unfolding assms by (rule abgr4444_hi)
  finally have a: "argb32_to_abgr4444 c1 = argb32_to_abgr4444 c2" .
  have "argb32_to_bgra4444 c1 = argb32_to_bgra4444 (c1 AND 0xF0F0F0F0)"
    by (simp only: bgra4444_hi)
  also have "\<dots> = argb32_to_bgra4444 c2" unfolding assms by (rule bgra4444_hi)
  finally have b: "argb32_to_bgra4444 c1 = argb32_to_bgra4444 c2" .
  have "argb32_to_rgba4444 c1 = argb32_to_rgba4444 (c1 AND 0xF0F0F0F0)"
    by (simp only: rgba4444_hi)
  also have "\<dots> = argb32_to_rgba4444 c2" unfolding assms by (rule rgba4444_hi)
  finally have c: "argb32_to_rgba4444 c1 = argb32_to_rgba4444 c2" .
  from a b c show ?thesis by simp
qed

theorem converters_4444_ignore_low_nibbles_witness:
  "(0x12345678 :: 32 word) AND 0xF0F0F0F0 = 0x1F3F5F7F AND 0xF0F0F0F0 \<and>
   argb32_to_abgr4444 0x12345678 = argb32_to_abgr4444 0x1F3F5F7F \<and>
   argb32_to_bgra4444 0x12345678 = argb32_to_bgra4444 0x1F3F5F7F \<and>
   argb32_to_rgba4444 0x12345678 = argb32_to_rgba4444 0x1F3F5F7F"
proof -
  have h: "(0x12345678 :: 32 word) AND 0xF0F0F0F0 = 0x1F3F5F7F AND 0xF0F0F0F0" by simp
  from converters_4444_ignore_low_nibbles[OF h] h show ?thesis by simp
qed

lemma pack_4444_fields:
  fixes a r g b :: "32 word"
  defines "px \<equiv> (ucast (push_bit 12 (take_bit 4 a) OR push_bit 8 (take_bit 4 r)
                      OR push_bit 4 (take_bit 4 g) OR take_bit 4 b) :: 16 word)"
  shows "field px 12 4 = take_bit 4 a" "field px 8 4 = take_bit 4 r"
    "field px 4 4 = take_bit 4 g" "field px 0 4 = take_bit 4 b"
  unfolding px_def field_def
  by (rule bit_word_eqI; auto simp add: bit_simps dest: bit_imp_le_length)+

lemma pack_1555_fields:
  fixes a r g b :: "32 word"
  defines "px \<equiv> (ucast (push_bit 15 a OR push_bit 10 (take_bit 5 r)
                      OR push_bit 5 (take_bit 5 g) OR take_bit 5 b) :: 16 word)"
  shows "field px 10 5 = take_bit 5 r"
    "field px 5 5 = take_bit 5 g" "field px 0 5 = take_bit 5 b"
  unfolding px_def field_def
  by (rule bit_word_eqI; auto simp add: bit_simps dest: bit_imp_le_length)+

lemma hi4_take: "take_bit 4 (drop_bit 4 (x AND 0xff)) = drop_bit 4 (x AND 0xff)"
  for x :: "32 word"
  unfolding byte_mask
  by (rule bit_word_eqI) (auto simp add: bit_simps dest: bit_imp_le_length)

lemma hi5_take: "take_bit 5 (drop_bit 3 (x AND 0xff)) = drop_bit 3 (x AND 0xff)"
  for x :: "32 word"
  unfolding byte_mask
  by (rule bit_word_eqI) (auto simp add: bit_simps dest: bit_imp_le_length)

lemma rgba4444_fields:
  "field (argb32_to_rgba4444 col) 12 4 = drop_bit 4 (drop_bit 16 col AND 0xff)"
  "field (argb32_to_rgba4444 col) 8 4 = drop_bit 4 (drop_bit 8 col AND 0xff)"
  "field (argb32_to_rgba4444 col) 4 4 = drop_bit 4 (col AND 0xff)"
  "field (argb32_to_rgba4444 col) 0 4 = drop_bit 4 (drop_bit 24 col AND 0xff)"
  using pack_4444_fields[of "drop_bit 4 (drop_bit 16 col AND 0xff)"
      "drop_bit 4 (drop_bit 8 col AND 0xff)" "drop_bit 4 (col AND 0xff)"
      "drop_bit 4 (drop_bit 24 col AND 0xff)"]
  unfolding hi4_take argb32_to_rgba4444_def Let_def by blast+

lemma abgr4444_fields:
  "field (argb32_to_abgr4444 col) 12 4 = drop_bit 4 (drop_bit 24 col AND 0xff)"
  "field (argb32_to_abgr4444 col) 8 4 = drop_bit 4 (col AND 0xff)"
  "field (argb32_to_abgr4444 col) 4 4 = drop_bit 4 (drop_bit 8 col AND 0xff)"
  "field (argb32_to_abgr4444 col) 0 4 = drop_bit 4 (drop_bit 16 col AND 0xff)"
  using pack_4444_fields[of "drop_bit 4 (drop_bit 24 col AND 0xff)"
      "drop_bit 4 (col AND 0xff)" "drop_bit 4 (drop_bit 8 col AND 0xff)"
      "drop_bit 4 (drop_bit 16 col AND 0xff)"]
  unfolding hi4_take argb32_to_abgr4444_def Let_def by blast+

lemma bgra4444_fields:
  "field (argb32_to_bgra4444 col) 12 4 = drop_bit 4 (col AND 0xff)"
  "field (argb32_to_bgra4444 col) 8 4 = drop_bit 4 (drop_bit 8 col AND 0xff)"
  "field (argb32_to_bgra4444 col) 4 4 = drop_bit 4 (drop_bit 16 col AND 0xff)"
  "field (argb32_to_bgra4444 col) 0 4 = drop_bit 4 (drop_bit 24 col AND 0xff)"
  using pack_4444_fields[of "drop_bit 4 (col AND 0xff)"
      "drop_bit 4 (drop_bit 8 col AND 0xff)" "drop_bit 4 (drop_bit 16 col AND 0xff)"
      "drop_bit 4 (drop_bit 24 col AND 0xff)"]
  unfolding hi4_take argb32_to_bgra4444_def Let_def by blast+

lemma abgr1555_opaque:
  assumes "drop_bit 24 col AND 0xff = (0xff::32 word)"
  shows "argb32_to_abgr1555 col =
     ucast (push_bit 15 1 OR push_bit 10 (drop_bit 3 (col AND 0xff))
            OR push_bit 5 (drop_bit 3 (drop_bit 8 col AND 0xff))
            OR drop_bit 3 (drop_bit 16 col AND 0xff))"
  using assms by (simp add: argb32_to_abgr1555_def Let_def)

lemma one_take: "take_bit 1 (1::32 word) = 1" by simp
lemma seven_take: "take_bit 4 (7::32 word) = 7" by simp

lemma abgr1555_alpha_bit:
  assumes "drop_bit 24 col AND 0xff = (0xff::32 word)"
  shows "bit (argb32_to_abgr1555 col) 15"
  unfolding abgr1555_opaque[OF assms]
  by (simp add: bit_simps)

lemma abgr1555_fields:
  assumes "drop_bit 24 col AND 0xff = (0xff::32 word)"
  shows "field (argb32_to_abgr1555 col) 10 5 = drop_bit 3 (col AND 0xff)"
    "field (argb32_to_abgr1555 col) 5 5 = drop_bit 3 (drop_bit 8 col AND 0xff)"
    "field (argb32_to_abgr1555 col) 0 5 = drop_bit 3 (drop_bit 16 col AND 0xff)"
  using pack_1555_fields[of 1 "drop_bit 3 (col AND 0xff)" "drop_bit 3 (drop_bit 8 col AND 0xff)"
      "drop_bit 3 (drop_bit 16 col AND 0xff)"]
  unfolding hi5_take abgr1555_opaque[OF assms] by blast+

lemma rgb5a3_opaque:
  assumes "drop_bit 24 col AND 0xff = (0xff::32 word)"
  shows "argb32_to_rgb5a3 col =
     Some (ucast (push_bit 12 7 OR push_bit 8 (drop_bit 4 (drop_bit 16 col AND 0xff))
            OR push_bit 4 (drop_bit 4 (drop_bit 8 col AND 0xff))
            OR drop_bit 4 (col AND 0xff)))"
  using assms by (simp add: argb32_to_rgb5a3_def Let_def)

lemma rgb5a3_fields:
  fixes col :: "32 word"
  defines "px \<equiv> (ucast (push_bit 12 (7::32 word) OR push_bit 8 (drop_bit 4 (drop_bit 16 col AND 0xff))
            OR push_bit 4 (drop_bit 4 (drop_bit 8 col AND 0xff))
            OR drop_bit 4 (col AND 0xff)) :: 16 word)"
  shows "field px 12 4 = 7"
    "field px 8 4 = drop_bit 4 (drop_bit 16 col AND 0xff)"
    "field px 4 4 = drop_bit 4 (drop_bit 8 col AND 0xff)"
    "field px 0 4 = drop_bit 4 (col AND 0xff)"
  using pack_4444_fields[of 7 "drop_bit 4 (drop_bit 16 col AND 0xff)"
      "drop_bit 4 (drop_bit 8 col AND 0xff)" "drop_bit 4 (col AND 0xff)"]
  unfolding hi4_take seven_take px_def by blast+

text \<open>
  Claim C8, as stated, gives the output of \<^verbatim>\<open>argb32_to_rgb5a3\<close> an alpha of
  15 for an input of alpha 255. The format has a 3 bit alpha field: opaque red is
  converted to \<open>0x7F00\<close>, whose top nibble is 7.
\<close>

theorem rgb5a3_opaque_alpha_counterexample:
  "argb32_to_rgb5a3 0xFFFF0000 = Some 0x7F00 \<and> field 0x7F00 12 4 \<noteq> 15"
  by (simp add: argb32_to_rgb5a3_def field_def)

text \<open>
  Claim C8, amended. For every input of alpha 255 no converter rescales the colour
  components, and the fields of the packed result are the high-order bits of the input
  channels: 5 bits per colour channel with the alpha bit set for
  \<^verbatim>\<open>argb32_to_abgr1555\<close>; 4 bits per colour channel for
  \<^verbatim>\<open>argb32_to_rgb5a3\<close>, whose top nibble is 7 (bit 15 clear, the 3 bit
  alpha field at its maximum); 4 bits per colour channel and an alpha nibble of 15 for
  the three 4444 converters. Opaque red is converted by
  \<^verbatim>\<open>argb32_to_rgba4444\<close> to red 15, green 0, blue 0, alpha 15.
\<close>

theorem converters_opaque_fields:
  assumes "drop_bit 24 col AND 0xff = (0xff :: 32 word)"
  shows "bit (argb32_to_abgr1555 col) 15 \<and>
         field (argb32_to_abgr1555 col) 10 5 = drop_bit 3 (col AND 0xff) \<and>
         field (argb32_to_abgr1555 col) 5 5 = drop_bit 3 (drop_bit 8 col AND 0xff) \<and>
         field (argb32_to_abgr1555 col) 0 5 = drop_bit 3 (drop_bit 16 col AND 0xff) \<and>
         (\<exists>px. argb32_to_rgb5a3 col = Some px \<and>
               field px 12 4 = 7 \<and>
               field px 8 4 = drop_bit 4 (drop_bit 16 col AND 0xff) \<and>
               field px 4 4 = drop_bit 4 (drop_bit 8 col AND 0xff) \<and>
               field px 0 4 = drop_bit 4 (col AND 0xff)) \<and>
         field (argb32_to_abgr4444 col) 12 4 = 15 \<and>
         field (argb32_to_abgr4444 col) 8 4 = drop_bit 4 (col AND 0xff) \<and>
         field (argb32_to_abgr4444 col) 4 4 = drop_bit 4 (drop_bit 8 col AND 0xff) \<and>
         field (argb32_to_abgr4444 col) 0 4 = drop_bit 4 (drop_bit 16 col AND 0xff) \<and>
         field (argb32_to_bgra4444 col) 12 4 = drop_bit 4 (col AND 0xff) \<and>
         field (argb32_to_bgra4444 col) 8 4 = drop_bit 4 (drop_bit 8 col AND 0xff) \<and>
         field (argb32_to_bgra4444 col) 4 4 = drop_bit 4 (drop_bit 16 col AND 0xff) \<and>
         field (argb32_to_bgra4444 col) 0 4 = 15 \<and>
         field (argb32_to_rgba4444 col) 12 4 = drop_bit 4 (drop_bit 16 col AND 0xff) \<and>
         field (argb32_to_rgba4444 col) 8 4 = drop_bit 4 (drop_bit 8 col AND 0xff) \<and>
         field (argb32_to_rgba4444 col) 4 4 = drop_bit 4 (col AND 0xff) \<and>
         field (argb32_to_rgba4444 col) 0 4 = 15 \<and>
         argb32_to_rgba4444 0xFFFF0000 = 0xF00F"
proof -
  have a15: "drop_bit 4 (drop_bit 24 col AND 0xff) = (15 :: 32 word)"
    unfolding assms by simp
  note p = abgr1555_alpha_bit[OF assms] abgr1555_fields[OF assms]
  have q: "\<exists>px. argb32_to_rgb5a3 col = Some px \<and>
               field px 12 4 = 7 \<and>
               field px 8 4 = drop_bit 4 (drop_bit 16 col AND 0xff) \<and>
               field px 4 4 = drop_bit 4 (drop_bit 8 col AND 0xff) \<and>
               field px 0 4 = drop_bit 4 (col AND 0xff)"
    unfolding rgb5a3_opaque[OF assms] using rgb5a3_fields[of col] by blast
  have r: "argb32_to_rgba4444 0xFFFF0000 = 0xF00F"
    by (simp add: argb32_to_rgba4444_def)
  show ?thesis
    using p q r abgr4444_fields[of col] bgra4444_fields[of col] rgba4444_fields[of col]
    unfolding a15 by blast
qed

theorem converters_opaque_fields_witness:
  "drop_bit 24 (0xFFFF0000 :: 32 word) AND 0xff = 0xff \<and>
   bit (argb32_to_abgr1555 0xFFFF0000) 15 \<and>
   field (argb32_to_abgr1555 0xFFFF0000) 0 5 = 31 \<and>
   field (argb32_to_abgr4444 0xFFFF0000) 12 4 = 15 \<and>
   field (argb32_to_bgra4444 0xFFFF0000) 4 4 = 15 \<and>
   field (argb32_to_rgba4444 0xFFFF0000) 12 4 = 15 \<and>
   field (argb32_to_rgba4444 0xFFFF0000) 0 4 = 15"
proof -
  have h: "drop_bit 24 (0xFFFF0000 :: 32 word) AND 0xff = 0xff" by simp
  from converters_opaque_fields[OF h] h show ?thesis by (simp add: field_def)
qed

lemma byte_bound: "unat (x AND 0xff) < 256" for x :: "32 word"
proof -
  have "x AND 0xff \<le> 0xff" by (rule word_and_le1)
  then have "unat (x AND 0xff) \<le> unat (0xff :: 32 word)" by (simp only: word_le_nat_alt)
  then show ?thesis by simp
qed

lemma scale_by_one_nat:
  assumes "n < 256"
  shows "c_trunc (f64 (f32 (f32 (of_nat n) * 1) + 1 / 2)) = int n"
proof -
  have n24: "n < 2 ^ 24" using assms by simp
  have a: "f32 (of_nat n) = of_nat n"
    unfolding f32_def by (rule fl_round_of_nat[OF n24])
  have "\<bar>2 * int n + 1\<bar> < 2 ^ 53" using assms by simp
  from fl_round_half[OF this]
  have b: "f64 (of_nat n + 1 / 2) = of_nat n + 1 / 2"
    by (simp add: f64_def)
  have c: "c_trunc (of_nat n + 1 / 2) = int n"
    by (simp add: c_trunc_def) linarith
  show ?thesis by (simp add: a b c)
qed

lemma scale_by_one:
  assumes "unat r < 256"
  shows "to_unsigned (f64 (f32 (f32 (of_unsigned r) * 1) + 1 / 2)) = r"
  unfolding to_unsigned_def of_unsigned_def scale_by_one_nat[OF assms] by simp

lemma rgb5a3_scale_one: "unat r < 256 \<Longrightarrow> rgb5a3_scale 1 r = r"
proof -
  assume r: "unat r < 256"
  then have "r \<le> 0xff" by (simp add: word_le_nat_alt)
  then show ?thesis unfolding rgb5a3_scale_def scale_by_one[OF r] by (simp add: Let_def)
qed

lemma f32_of_unsigned_eq_0: "f32 (of_unsigned a) = 0 \<longleftrightarrow> a = 0"
proof -
  have "f32 (of_unsigned a) = 0 \<longleftrightarrow> (of_nat (unat a) :: rat) = 0"
    unfolding f32_def of_unsigned_def by (rule fl_round_eq_0_iff) simp
  also have "\<dots> \<longleftrightarrow> unat a = 0" by (simp only: of_nat_eq_0_iff)
  also have "\<dots> \<longleftrightarrow> a = 0" by (rule unat_eq_0)
  finally show ?thesis .
qed

lemma rgb5a3_a_factor_total: "\<exists>f. rgb5a3_a_factor a3 a4 = Some f"
proof (cases "0 < a3")
  case True
  then have "a3 \<noteq> 0" by auto
  then have "f32 (of_unsigned a3) \<noteq> 0" by (simp only: f32_of_unsigned_eq_0 not_False_eq_True)
  moreover have "f64 (1 / 7) \<noteq> 0" by (simp add: f64_def fl_round_eq_0_iff)
  ultimately have "f64 (f32 (of_unsigned a3) * f64 (1 / 7)) \<noteq> 0"
    by (simp add: f64_def fl_round_eq_0_iff)
  then show ?thesis using True by (simp add: rgb5a3_a_factor_def c_fdiv_def)
next
  case False
  then show ?thesis by (simp add: rgb5a3_a_factor_def)
qed

lemma rgb5a3_total: "\<exists>px. argb32_to_rgb5a3 col = Some px"
proof -
  obtain f where "rgb5a3_a_factor (drop_bit 5 (drop_bit 24 col AND 0xff))
      (drop_bit 4 (drop_bit 24 col AND 0xff)) = Some f"
    using rgb5a3_a_factor_total by blast
  then show ?thesis by (simp add: argb32_to_rgb5a3_def Let_def)
qed

lemma rgb5a3_transparent:
  assumes "drop_bit 24 col AND 0xff = (0::32 word)"
  shows "argb32_to_rgb5a3 col =
     Some (ucast (push_bit 8 (drop_bit 4 (drop_bit 16 col AND 0xff))
                  OR push_bit 4 (drop_bit 4 (drop_bit 8 col AND 0xff))
                  OR drop_bit 4 (col AND 0xff)))"
proof -
  have f: "rgb5a3_a_factor 0 0 = Some 1" by (simp add: rgb5a3_a_factor_def)
  show ?thesis
    unfolding argb32_to_rgb5a3_def Let_def assms
    by (simp add: f rgb5a3_scale_one byte_bound)
qed

text \<open>
  Claim C5. \<^verbatim>\<open>argb32_to_rgb5a3\<close> is total and never divides by zero: it
  returns a 16 bit value for every input, and for an input whose alpha component is 0
  the correction factor is 1.0, so that the R, G and B components reach the 4 bit
  truncation unscaled.
\<close>

theorem rgb5a3_alpha_zero:
  "(\<exists>px. argb32_to_rgb5a3 col = Some px) \<and>
   (drop_bit 24 col AND 0xff = 0 \<longrightarrow>
      rgb5a3_a_factor (drop_bit 5 (drop_bit 24 col AND 0xff))
        (drop_bit 4 (drop_bit 24 col AND 0xff)) = Some 1 \<and>
      argb32_to_rgb5a3 col =
        Some (ucast (push_bit 8 (drop_bit 4 (drop_bit 16 col AND 0xff))
                  OR push_bit 4 (drop_bit 4 (drop_bit 8 col AND 0xff))
                  OR drop_bit 4 (col AND 0xff))))"
  using rgb5a3_total[of col] rgb5a3_transparent[of col]
  by (simp add: rgb5a3_a_factor_def)

theorem rgb5a3_alpha_zero_witness:
  "drop_bit 24 (0x00FF8040 :: 32 word) AND 0xff = 0 \<and>
   rgb5a3_a_factor 0 0 = Some 1 \<and> argb32_to_rgb5a3 0x00FF8040 = Some 0x0F84"
  using rgb5a3_alpha_zero[of "0x00FF8040"] by simp

section \<open>Properties of the rectangle primitives\<close>

lemma sint_plus_unsigned:
  fixes x w :: "32 word"
  assumes "- (2 ^ 31) \<le> sint x + uint w" "sint x + uint w < 2 ^ 31"
  shows "sint (x + w) = sint x + uint w"
proof -
  have "x + w = word_of_int (sint x + uint w)" by simp
  then have "sint (x + w) = signed_take_bit 31 (sint x + uint w)"
    by (simp only: signed_of_int) simp
  also have "\<dots> = sint x + uint w"
    using assms by (intro signed_take_bit_int_eq_self) simp_all
  finally show ?thesis .
qed

lemma unat_lt32: "unat (x :: 32 word) < 2 ^ 32"
proof -
  have "unat x < 2 ^ LENGTH(32)" by (rule unsigned_less)
  then show ?thesis by simp
qed

lemma set_word_range: "set (word_range lo hi) = {v. lo \<le> v \<and> v < hi}"
proof (rule set_eqI)
  fix v :: "32 word"
  show "v \<in> set (word_range lo hi) \<longleftrightarrow> v \<in> {v. lo \<le> v \<and> v < hi}"
  proof
    assume "v \<in> set (word_range lo hi)"
    then obtain n where n: "v = of_nat n" "unat lo \<le> n" "n < unat hi"
      by (auto simp add: word_range_def)
    have "n < 2 ^ 32" using n(3) unat_lt32[of hi] by simp
    then have "unat v = n" using n(1) by (simp add: unat_of_nat)
    then show "v \<in> {v. lo \<le> v \<and> v < hi}"
      using n by (simp add: word_le_nat_alt word_less_nat_alt)
  next
    assume "v \<in> {v. lo \<le> v \<and> v < hi}"
    then have "unat lo \<le> unat v" "unat v < unat hi"
      by (simp_all add: word_le_nat_alt word_less_nat_alt)
    then have "unat v \<in> set [unat lo..<unat hi]" by simp
    then have "(of_nat (unat v) :: 32 word) \<in> of_nat ` set [unat lo..<unat hi]" by (rule imageI)
    then show "v \<in> set (word_range lo hi)" by (simp add: word_range_def)
  qed
qed

lemma fold_write_texels:
  "texels (fold (\<lambda>x. write_texel (g x) c) xs s) =
     (\<lambda>off. if off \<in> g ` set xs then c else texels s off)"
  "written (fold (\<lambda>x. write_texel (g x) c) xs s) = written s \<union> g ` set xs"
  by (induction xs arbitrary: s) (auto simp add: write_texel_def fun_eq_iff)

lemma fold_write_rows:
  "texels (fold (\<lambda>y. fold (\<lambda>x. write_texel (g y x) c) xs) ys s) =
     (\<lambda>off. if off \<in> (\<Union>y\<in>set ys. g y ` set xs) then c else texels s off)"
  "written (fold (\<lambda>y. fold (\<lambda>x. write_texel (g y x) c) xs) ys s) =
     written s \<union> (\<Union>y\<in>set ys. g y ` set xs)"
  by (induction ys arbitrary: s) (auto simp add: fold_write_texels fun_eq_iff)

lemma rect_offsets:
  fixes w :: "32 word"
  assumes "unat d * unat w < 2 ^ 32"
  shows "(\<Union>y\<in>set (word_range c d). (\<lambda>x. unat (y * w) + unat x) ` set (word_range a b)) =
     {j * unat w + i | i j. unat a \<le> i \<and> i < unat b \<and> unat c \<le> j \<and> j < unat d}"
    (is "?L = ?R")
proof -
  have mul: "unat (y * w) = unat y * unat w" if "y < d" for y
  proof -
    have "unat y \<le> unat d" using that by (simp add: word_less_nat_alt)
    then have "unat y * unat w \<le> unat d * unat w" by (rule mult_le_mono1)
    then have "unat y * unat w < 2 ^ 32" using assms by (rule le_less_trans)
    then show ?thesis by (simp add: unat_mult_lem[THEN iffD1])
  qed
  show ?thesis
  proof (rule set_eqI, rule iffI)
    fix off assume "off \<in> ?L"
    then obtain y x where yx: "c \<le> y" "y < d" "a \<le> x" "x < b" "off = unat (y * w) + unat x"
      by (auto simp add: set_word_range)
    then have "off = unat y * unat w + unat x \<and> unat a \<le> unat x \<and> unat x < unat b
        \<and> unat c \<le> unat y \<and> unat y < unat d"
      by (simp add: mul word_le_nat_alt word_less_nat_alt)
    then show "off \<in> ?R" by blast
  next
    fix off assume "off \<in> ?R"
    then obtain i j where ij: "off = j * unat w + i" "unat a \<le> i" "i < unat b" "unat c \<le> j" "j < unat d"
      by blast
    have i32: "i < 2 ^ 32" using ij(3) unat_lt32[of b] by simp
    have j32: "j < 2 ^ 32" using ij(5) unat_lt32[of d] by simp
    let ?x = "of_nat i :: 32 word" and ?y = "of_nat j :: 32 word"
    have ux: "unat ?x = i" and uy: "unat ?y = j"
      using i32 j32 by (simp_all add: unat_of_nat)
    have xin: "?x \<in> set (word_range a b)" and yin: "?y \<in> set (word_range c d)"
      using ij ux uy by (simp_all add: set_word_range word_le_nat_alt word_less_nat_alt)
    have "?y < d" using ij uy by (simp add: word_less_nat_alt)
    then have "unat (?y * w) = j * unat w" using mul[of ?y] uy by simp
    then have "off = unat (?y * w) + unat ?x" using ij(1) ux by simp
    then show "off \<in> ?L" using xin yin by blast
  qed
qed

lemma sint32_cases: "sint (v :: 32 word) = (if uint v < 2 ^ 31 then uint v else uint v - 2 ^ 32)"
proof -
  have b: "0 \<le> uint v" "uint v < 2 ^ 32" using uint_lt2p[of v] by simp_all
  have eq: "sint v = (uint v + 2 ^ 31) mod 2 ^ 32 - 2 ^ 31"
    by (simp add: sint_uint signed_take_bit_eq_take_bit_shift take_bit_eq_mod)
  show ?thesis
  proof (cases "uint v < 2 ^ 31")
    case True
    then have "(uint v + 2 ^ 31) mod 2 ^ 32 = uint v + 2 ^ 31"
      using b by (intro mod_pos_pos_trivial) simp_all
    then show ?thesis using True eq by simp
  next
    case False
    have "(uint v + 2 ^ 31) mod 2 ^ 32 = (uint v + 2 ^ 31 - 2 ^ 32) mod 2 ^ 32"
      by (simp only: minus_mod_self2)
    also have "\<dots> = uint v + 2 ^ 31 - 2 ^ 32"
      using b False by (intro mod_pos_pos_trivial) simp_all
    finally show ?thesis using False eq by simp
  qed
qed

lemma particle_clamp:
  fixes x width fb_width :: "32 word"
  assumes w31: "unat fb_width < 2 ^ 31" and nov: "sint x + uint width < 2 ^ 31"
  defines "x_start1 \<equiv> (if 0 < sint x then x else 0)"
  defines "x_start \<equiv> (if sint x_start1 \<le> sint fb_width then x_start1 else fb_width)"
  defines "x_end1 \<equiv> (if 0 < sint (x + width) then x + width else 0)"
  defines "x_end \<equiv> (if sint x_end1 \<le> sint fb_width then x_end1 else fb_width)"
  shows "sint x_start = min (max (sint x) 0) (int (unat fb_width))"
    and "sint x_end = min (max (sint x + uint width) 0) (int (unat fb_width))"
    and "int (unat x_start) = sint x_start"
    and "int (unat x_end) = sint x_end"
proof -
  have "uint fb_width < 2 ^ 31" using w31 by transfer simp
  then have fw: "sint fb_width = int (unat fb_width)"
    by (simp add: sint32_cases)
  have lo: "- (2 ^ 31) \<le> sint x + uint width"
  proof -
    have "(0::int) \<le> uint width" by simp
    moreover have "- (2 ^ 31) \<le> sint x" using sint_greater_eq[of x] by simp
    ultimately show ?thesis by linarith
  qed
  have xe: "sint (x + width) = sint x + uint width"
    using lo nov by (rule sint_plus_unsigned)
  show s: "sint x_start = min (max (sint x) 0) (int (unat fb_width))"
    unfolding x_start_def x_start1_def by (simp add: fw)
  show e: "sint x_end = min (max (sint x + uint width) 0) (int (unat fb_width))"
    unfolding x_end_def x_end1_def by (simp add: fw xe)
  have nn: "0 \<le> sint v \<Longrightarrow> int (unat v) = sint v" for v :: "32 word"
    using uint_lt2p[of v] by (simp add: sint32_cases split: if_splits)
  show "int (unat x_start) = sint x_start" by (rule nn) (simp add: s)
  show "int (unat x_end) = sint x_end" by (rule nn) (simp add: e)
qed


lemma draw_particle_unfold:
  "rgui_draw_particle s fb_width fb_height x y width height color =
     (let x_start1 = (if 0 < sint x then x else 0);
          x_start = (if sint x_start1 \<le> sint fb_width then x_start1 else fb_width);
          x_end1 = (if 0 < sint (x + width) then x + width else 0);
          x_end = (if sint x_end1 \<le> sint fb_width then x_end1 else fb_width);
          y_start1 = (if 0 < sint y then y else 0);
          y_start = (if sint y_start1 \<le> sint fb_height then y_start1 else fb_height);
          y_end1 = (if 0 < sint (y + height) then y + height else 0);
          y_end = (if sint y_end1 \<le> sint fb_height then y_end1 else fb_height)
      in (sint x_start < sint x_end \<and> sint y_start < sint y_end,
          fold (\<lambda>y_index.
                  fold (\<lambda>x_index. write_texel (unat (y_index * fb_width) + unat x_index) color)
                       (word_range x_start x_end))
               (word_range y_start y_end) s))"
  by (simp add: rgui_draw_particle_def Let_def)

lemma clip_range:
  fixes a b W X D :: int
  assumes "a = min (max X 0) W" "b = min (max (X + D) 0) W"
  shows "(a \<le> int i \<and> int i < b) \<longleftrightarrow> (int i < W \<and> X \<le> int i \<and> int i < X + D)"
  using assms by auto

lemma clip_nonempty:
  fixes a b W X D :: int
  assumes "a = min (max X 0) W" "b = min (max (X + D) 0) W"
  shows "a < b \<longleftrightarrow> (\<exists>i. int i < W \<and> X \<le> int i \<and> int i < X + D)"
proof
  assume "a < b"
  then have "0 \<le> a" "a \<le> int (nat a) \<and> int (nat a) < b" using assms by auto
  then show "\<exists>i. int i < W \<and> X \<le> int i \<and> int i < X + D"
    using clip_range[OF assms, of "nat a"] by blast
next
  assume "\<exists>i. int i < W \<and> X \<le> int i \<and> int i < X + D"
  then obtain i where "int i < W \<and> X \<le> int i \<and> int i < X + D" ..
  then have "a \<le> int i \<and> int i < b" using clip_range[OF assms, of i] by simp
  then show "a < b" by simp
qed

lemma draw_particle_effect:
  assumes ok: "frame_buf_ok fb_width fb_height"
    and nx: "sint x + uint width < 2 ^ 31"
    and ny: "sint y + uint height < 2 ^ 31"
  shows "(fst (rgui_draw_particle s fb_width fb_height x y width height color) \<longleftrightarrow>
            (\<exists>i j. i < unat fb_width \<and> sint x \<le> int i \<and> int i < sint x + uint width \<and>
                   j < unat fb_height \<and> sint y \<le> int j \<and> int j < sint y + uint height)) \<and>
         written (snd (rgui_draw_particle s fb_width fb_height x y width height color)) =
           written s \<union>
           {j * unat fb_width + i | i j.
              i < unat fb_width \<and> sint x \<le> int i \<and> int i < sint x + uint width \<and>
              j < unat fb_height \<and> sint y \<le> int j \<and> int j < sint y + uint height} \<and>
         texels (snd (rgui_draw_particle s fb_width fb_height x y width height color)) =
           (\<lambda>off. if off \<in> {j * unat fb_width + i | i j.
                      i < unat fb_width \<and> sint x \<le> int i \<and> int i < sint x + uint width \<and>
                      j < unat fb_height \<and> sint y \<le> int j \<and> int j < sint y + uint height}
                   then color else texels s off)"
proof -
  define x_start1 where "x_start1 = (if 0 < sint x then x else 0)"
  define x_start where "x_start = (if sint x_start1 \<le> sint fb_width then x_start1 else fb_width)"
  define x_end1 where "x_end1 = (if 0 < sint (x + width) then x + width else 0)"
  define x_end where "x_end = (if sint x_end1 \<le> sint fb_width then x_end1 else fb_width)"
  define y_start1 where "y_start1 = (if 0 < sint y then y else 0)"
  define y_start where "y_start = (if sint y_start1 \<le> sint fb_height then y_start1 else fb_height)"
  define y_end1 where "y_end1 = (if 0 < sint (y + height) then y + height else 0)"
  define y_end where "y_end = (if sint y_end1 \<le> sint fb_height then y_end1 else fb_height)"
  define area where "area = {j * unat fb_width + i | i j.
              i < unat fb_width \<and> sint x \<le> int i \<and> int i < sint x + uint width \<and>
              j < unat fb_height \<and> sint y \<le> int j \<and> int j < sint y + uint height}"
  have w31: "unat fb_width < 2 ^ 31" and h31: "unat fb_height < 2 ^ 31"
    and wh: "unat fb_width * unat fb_height < 2 ^ 32"
    using ok by (simp_all add: frame_buf_ok_def RGUI_MAX_FB_WIDTH_def)
  note cx = particle_clamp[OF w31 nx, folded x_start1_def x_end1_def, folded x_start_def x_end_def]
  note cy = particle_clamp[OF h31 ny, folded y_start1_def y_end1_def, folded y_start_def y_end_def]
  have res: "rgui_draw_particle s fb_width fb_height x y width height color =
      (sint x_start < sint x_end \<and> sint y_start < sint y_end,
       fold (\<lambda>y_index.
               fold (\<lambda>x_index. write_texel (unat (y_index * fb_width) + unat x_index) color)
                    (word_range x_start x_end))
            (word_range y_start y_end) s)"
    unfolding draw_particle_unfold Let_def
      x_start1_def x_start_def x_end1_def x_end_def y_start1_def y_start_def y_end1_def y_end_def ..
  have xr: "(unat x_start \<le> i \<and> i < unat x_end) \<longleftrightarrow>
      (i < unat fb_width \<and> sint x \<le> int i \<and> int i < sint x + uint width)" for i
  proof -
    have "(unat x_start \<le> i \<and> i < unat x_end) \<longleftrightarrow> (sint x_start \<le> int i \<and> int i < sint x_end)"
      unfolding cx(3)[symmetric] cx(4)[symmetric] by (simp only: of_nat_le_iff of_nat_less_iff)
    also have "\<dots> \<longleftrightarrow> (int i < int (unat fb_width) \<and> sint x \<le> int i \<and> int i < sint x + uint width)"
      by (rule clip_range[OF cx(1) cx(2)])
    finally show ?thesis by (simp only: of_nat_less_iff)
  qed
  have yr: "(unat y_start \<le> j \<and> j < unat y_end) \<longleftrightarrow>
      (j < unat fb_height \<and> sint y \<le> int j \<and> int j < sint y + uint height)" for j
  proof -
    have "(unat y_start \<le> j \<and> j < unat y_end) \<longleftrightarrow> (sint y_start \<le> int j \<and> int j < sint y_end)"
      unfolding cy(3)[symmetric] cy(4)[symmetric] by (simp only: of_nat_le_iff of_nat_less_iff)
    also have "\<dots> \<longleftrightarrow> (int j < int (unat fb_height) \<and> sint y \<le> int j \<and> int j < sint y + uint height)"
      by (rule clip_range[OF cy(1) cy(2)])
    finally show ?thesis by (simp only: of_nat_less_iff)
  qed
  have "int (unat y_end) \<le> int (unat fb_height)" unfolding cy(4) cy(2) by simp
  then have "unat y_end \<le> unat fb_height" by (simp only: of_nat_le_iff)
  then have "unat y_end * unat fb_width \<le> unat fb_height * unat fb_width" by (rule mult_le_mono1)
  moreover have "unat fb_height * unat fb_width < 2 ^ 32" using wh by (simp only: mult.commute)
  ultimately have nowrap: "unat y_end * unat fb_width < 2 ^ 32" by (rule le_less_trans)
  have offs: "(\<Union>y\<in>set (word_range y_start y_end).
        (\<lambda>x. unat (y * fb_width) + unat x) ` set (word_range x_start x_end)) = area"
    unfolding rect_offsets[OF nowrap] area_def
    by (rule Collect_cong) (metis xr yr)
  have f: "fst (rgui_draw_particle s fb_width fb_height x y width height color) \<longleftrightarrow>
      (\<exists>i j. i < unat fb_width \<and> sint x \<le> int i \<and> int i < sint x + uint width \<and>
             j < unat fb_height \<and> sint y \<le> int j \<and> int j < sint y + uint height)"
  proof -
    have a: "sint x_start < sint x_end \<longleftrightarrow>
        (\<exists>i. int i < int (unat fb_width) \<and> sint x \<le> int i \<and> int i < sint x + uint width)"
      by (rule clip_nonempty[OF cx(1) cx(2)])
    have b: "sint y_start < sint y_end \<longleftrightarrow>
        (\<exists>j. int j < int (unat fb_height) \<and> sint y \<le> int j \<and> int j < sint y + uint height)"
      by (rule clip_nonempty[OF cy(1) cy(2)])
    show ?thesis unfolding res fst_conv a b by (simp only: of_nat_less_iff) blast
  qed
  have w: "written (snd (rgui_draw_particle s fb_width fb_height x y width height color)) =
      written s \<union> area"
    unfolding res snd_conv fold_write_rows offs ..
  have t: "texels (snd (rgui_draw_particle s fb_width fb_height x y width height color)) =
      (\<lambda>off. if off \<in> area then color else texels s off)"
    unfolding res snd_conv fold_write_rows offs ..
  show ?thesis using f w t unfolding area_def by blast
qed

text \<open>
  Claim C4. For signed \<open>x\<close>, \<open>y\<close> and unsigned \<open>width\<close>, \<open>height\<close> such that
  \<open>x + width\<close> and \<open>y + height\<close> do not overflow \<^verbatim>\<open>int\<close>,
  \<^verbatim>\<open>rgui_draw_particle\<close> writes \<open>color\<close> to exactly the texels of the
  intersection of \<open>[x, x + width) \<times> [y, y + height)\<close> with
  \<open>[0, fb_width) \<times> [0, fb_height)\<close>, leaves every other texel unchanged, and returns
  true if and only if that intersection is not empty.
\<close>

theorem draw_particle_clipped:
  assumes "frame_buf_ok fb_width fb_height"
    and "sint x + uint width < 2 ^ 31"
    and "sint y + uint height < 2 ^ 31"
  shows "(fst (rgui_draw_particle s fb_width fb_height x y width height color) \<longleftrightarrow>
            (\<exists>i j. i < unat fb_width \<and> sint x \<le> int i \<and> int i < sint x + uint width \<and>
                   j < unat fb_height \<and> sint y \<le> int j \<and> int j < sint y + uint height)) \<and>
         written (snd (rgui_draw_particle s fb_width fb_height x y width height color)) =
           written s \<union>
           {j * unat fb_width + i | i j.
              i < unat fb_width \<and> sint x \<le> int i \<and> int i < sint x + uint width \<and>
              j < unat fb_height \<and> sint y \<le> int j \<and> int j < sint y + uint height} \<and>
         texels (snd (rgui_draw_particle s fb_width fb_height x y width height color)) =
           (\<lambda>off. if off \<in> {j * unat fb_width + i | i j.
                      i < unat fb_width \<and> sint x \<le> int i \<and> int i < sint x + uint width \<and>
                      j < unat fb_height \<and> sint y \<le> int j \<and> int j < sint y + uint height}
                   then color else texels s off)"
  using assms by (rule draw_particle_effect)

theorem draw_particle_clipped_witness:
  "frame_buf_ok 256 192 \<and> sint (- 1 :: 32 word) + uint (2 :: 32 word) < 2 ^ 31 \<and>
   sint (3 :: 32 word) + uint (1 :: 32 word) < 2 ^ 31 \<and>
   fst (rgui_draw_particle fb_init 256 192 (- 1) 3 2 1 9) \<and>
   768 \<in> written (snd (rgui_draw_particle fb_init 256 192 (- 1) 3 2 1 9)) \<and>
   texels (snd (rgui_draw_particle fb_init 256 192 (- 1) 3 2 1 9)) 768 = 9"
proof -
  have ok: "frame_buf_ok 256 192" by (simp add: frame_buf_ok_def RGUI_MAX_FB_WIDTH_def)
  have nx: "sint (- 1 :: 32 word) + uint (2 :: 32 word) < 2 ^ 31" by simp
  have ny: "sint (3 :: 32 word) + uint (1 :: 32 word) < 2 ^ 31" by simp
  have inside: "(0::nat) < unat (256 :: 32 word) \<and> sint (- 1 :: 32 word) \<le> int 0 \<and>
      int 0 < sint (- 1 :: 32 word) + uint (2 :: 32 word) \<and>
      (3::nat) < unat (192 :: 32 word) \<and> sint (3 :: 32 word) \<le> int 3 \<and>
      int 3 < sint (3 :: 32 word) + uint (1 :: 32 word)" by simp
  then have ex: "\<exists>i j. i < unat (256 :: 32 word) \<and> sint (- 1 :: 32 word) \<le> int i \<and>
      int i < sint (- 1 :: 32 word) + uint (2 :: 32 word) \<and>
      j < unat (192 :: 32 word) \<and> sint (3 :: 32 word) \<le> int j \<and>
      int j < sint (3 :: 32 word) + uint (1 :: 32 word)" by blast
  have mem: "768 \<in> {j * unat (256 :: 32 word) + i | i j. i < unat (256 :: 32 word) \<and>
      sint (- 1 :: 32 word) \<le> int i \<and> int i < sint (- 1 :: 32 word) + uint (2 :: 32 word) \<and>
      j < unat (192 :: 32 word) \<and> sint (3 :: 32 word) \<le> int j \<and>
      int j < sint (3 :: 32 word) + uint (1 :: 32 word)}"
    using inside by (intro CollectI exI[of _ 0] exI[of _ 3]) simp
  note t = draw_particle_clipped[OF ok nx ny, of fb_init 9]
  from t ex have a: "fst (rgui_draw_particle fb_init 256 192 (- 1) 3 2 1 9)" by blast
  from t mem have b: "768 \<in> written (snd (rgui_draw_particle fb_init 256 192 (- 1) 3 2 1 9))"
    by blast
  from t have "texels (snd (rgui_draw_particle fb_init 256 192 (- 1) 3 2 1 9)) 768 =
      (if 768 \<in> {j * unat (256 :: 32 word) + i | i j. i < unat (256 :: 32 word) \<and>
      sint (- 1 :: 32 word) \<le> int i \<and> int i < sint (- 1 :: 32 word) + uint (2 :: 32 word) \<and>
      j < unat (192 :: 32 word) \<and> sint (3 :: 32 word) \<le> int j \<and>
      int j < sint (3 :: 32 word) + uint (1 :: 32 word)} then 9
       else texels fb_init 768)" by simp
  then have c: "texels (snd (rgui_draw_particle fb_init 256 192 (- 1) 3 2 1 9)) 768 = 9"
    using mem by (simp only: if_True)
  from ok nx ny a b c show ?thesis by blast
qed

lemma fold_scanline:
  "fold (\<lambda>x_index sc. sc(unat x_index := f x_index)) xs sc (unat v) =
     (if v \<in> set xs then f v else sc (unat v))"
proof (induction xs arbitrary: sc)
  case Nil
  then show ?case by simp
next
  case (Cons a xs)
  define g where "g = (\<lambda>x_index (sc :: nat \<Rightarrow> 'a). sc(unat x_index := f x_index))"
  have eq: "unat v = unat a \<longleftrightarrow> v = a" by (simp only: word_unat_eq_iff)
  have "fold g (a # xs) sc (unat v) = fold g xs (sc(unat a := f a)) (unat v)"
    by (simp only: fold_simps o_apply g_def)
  also have "\<dots> = (if v \<in> set xs then f v else (sc(unat a := f a)) (unat v))"
    unfolding g_def by (rule Cons.IH)
  also have "\<dots> = (if v \<in> set (a # xs) then f v else sc (unat v))"
    using eq by auto
  finally show ?case unfolding g_def .
qed

lemma populate_inside:
  assumes "unat x_start \<le> i" "i < unat x_end"
  shows "populate f x_start x_end sc i = f (of_nat i)"
proof -
  have i32: "i < 2 ^ 32" using assms(2) unat_lt32[of x_end] by simp
  let ?v = "of_nat i :: 32 word"
  have u: "unat ?v = i" using i32 by (simp add: unat_of_nat)
  have "?v \<in> set (word_range x_start x_end)"
    using assms u by (simp add: set_word_range word_le_nat_alt word_less_nat_alt)
  then show ?thesis
    using fold_scanline[of f "word_range x_start x_end" sc ?v]
    by (simp add: populate_def u)
qed

lemma x_size_texels:
  fixes x_start x_end :: "32 word"
  shows "unat ((ucast (x_end - x_start) :: 64 word) * 2) div 2 = unat (x_end - x_start)"
    and "(ucast (x_end - x_start) :: 64 word) * 2 = 0 \<longleftrightarrow> x_end = x_start"
proof -
  let ?d = "x_end - x_start"
  have "take_bit 64 (unat ?d) = unat ?d"
    using unat_lt32[of ?d] by (intro take_bit_nat_eq_self) simp
  then have d: "unat (ucast ?d :: 64 word) = unat ?d"
    by (simp add: unsigned_ucast_eq)
  have "unat ?d * 2 < 2 ^ 64" using unat_lt32[of ?d] by simp
  then have m: "unat ((ucast ?d :: 64 word) * 2) = unat ?d * 2"
    using unat_mult_lem[of "ucast ?d :: 64 word" 2] by (simp add: d)
  show "unat ((ucast ?d :: 64 word) * 2) div 2 = unat ?d" by (simp add: m)
  have "(ucast ?d :: 64 word) * 2 = 0 \<longleftrightarrow> unat ((ucast ?d :: 64 word) * 2) = 0"
    by (simp only: unat_eq_0)
  also have "\<dots> \<longleftrightarrow> unat ?d = 0" by (simp add: m)
  also have "\<dots> \<longleftrightarrow> ?d = 0" by (simp only: unat_eq_0)
  finally show "(ucast ?d :: 64 word) * 2 = 0 \<longleftrightarrow> x_end = x_start" by simp
qed

lemma row_interval:
  fixes W xs xe y :: nat
  assumes "xs \<le> xe" "xe \<le> W"
  shows "{xs + y * W..<xs + y * W + (xe - xs)} = {j * W + i | i j. j = y \<and> xs \<le> i \<and> i < xe}"
proof (rule set_eqI, rule iffI)
  fix off assume "off \<in> {xs + y * W..<xs + y * W + (xe - xs)}"
  then have "off = y * W + (off - y * W) \<and> xs \<le> off - y * W \<and> off - y * W < xe"
    using assms by auto
  then show "off \<in> {j * W + i | i j. j = y \<and> xs \<le> i \<and> i < xe}" by blast
next
  fix off assume "off \<in> {j * W + i | i j. j = y \<and> xs \<le> i \<and> i < xe}"
  then show "off \<in> {xs + y * W..<xs + y * W + (xe - xs)}" using assms by auto
qed

lemma row_source:
  fixes W xs xe y :: nat
  assumes "xs \<le> xe" "xe \<le> W" "off \<in> {xs + y * W..<xs + y * W + (xe - xs)}"
  shows "xs + (off - (xs + y * W)) = off mod W"
proof -
  from assms have a: "off = y * W + (off - y * W)" "off - y * W < W" by auto
  then have "off mod W = (off - y * W) mod W" by (metis mod_mult_self3)
  also have "\<dots> = off - y * W" using a(2) by simp
  finally show ?thesis using assms by auto
qed

lemma texels_paint [simp]: "texels (paint A f s) off = (if off \<in> A then f off else texels s off)"
  by (simp add: paint_def)

lemma written_paint [simp]: "written (paint A f s) = written s \<union> A"
  by (simp add: paint_def)

lemma paint_empty [simp]: "paint {} f s = s"
  by (simp add: paint_def)

lemma paint_paint: "paint A f (paint B f s) = paint (A \<union> B) f s"
  by (cases s) (auto simp add: paint_def fun_eq_iff)

lemma texel_rows_empty [simp]: "texel_rows W xs xe {} = {}"
  by (simp add: texel_rows_def)

lemma texel_rows_Un: "texel_rows W xs xe (J \<union> K) = texel_rows W xs xe J \<union> texel_rows W xs xe K"
  by (auto simp add: texel_rows_def)

lemma texel_rows_iff:
  assumes "i < W" "xe \<le> W"
  shows "j * W + i \<in> texel_rows W xs xe J \<longleftrightarrow> j \<in> J \<and> xs \<le> i \<and> i < xe"
proof
  assume "j * W + i \<in> texel_rows W xs xe J"
  then obtain i' j' where h: "j * W + i = j' * W + i'" "j' \<in> J" "xs \<le> i'" "i' < xe"
    by (auto simp add: texel_rows_def)
  have i'W: "i' < W" using h(4) assms(2) by simp
  have "(j * W + i) div W = j" "(j' * W + i') div W = j'" using assms(1) i'W by simp_all
  then have jj: "j = j'" using h(1) by simp
  then have "i = i'" using h(1) by simp
  then show "j \<in> J \<and> xs \<le> i \<and> i < xe" using h jj by simp
next
  assume "j \<in> J \<and> xs \<le> i \<and> i < xe"
  then show "j * W + i \<in> texel_rows W xs xe J" by (auto simp add: texel_rows_def)
qed

lemma memcpy_row:
  fixes W xs xe y :: nat
  assumes "xs \<le> xe" "xe \<le> W"
  shows "memcpy_texels (xs + y * W) src xs (xe - xs) s =
     paint (texel_rows W xs xe {y}) (\<lambda>off. src (off mod W)) s"
proof -
  have A: "{xs + y * W..<xs + y * W + (xe - xs)} = texel_rows W xs xe {y}"
    unfolding texel_rows_def using row_interval[OF assms, of y] by simp
  have mem: "off \<in> texel_rows W xs xe {y} \<longleftrightarrow>
      xs + y * W \<le> off \<and> off < xs + y * W + (xe - xs)" for off
    unfolding A[symmetric] by simp
  have t: "(\<lambda>off. if xs + y * W \<le> off \<and> off < xs + y * W + (xe - xs)
              then src (xs + (off - (xs + y * W))) else texels s off) =
        (\<lambda>off. if off \<in> texel_rows W xs xe {y} then src (off mod W) else texels s off)"
  proof (rule ext)
    fix off
    show "(if xs + y * W \<le> off \<and> off < xs + y * W + (xe - xs)
              then src (xs + (off - (xs + y * W))) else texels s off) =
        (if off \<in> texel_rows W xs xe {y} then src (off mod W) else texels s off)"
    proof (cases "off \<in> texel_rows W xs xe {y}")
      case True
      then have "off \<in> {xs + y * W..<xs + y * W + (xe - xs)}" unfolding A .
      from row_source[OF assms this] have "xs + (off - (xs + y * W)) = off mod W" .
      then show ?thesis using True by (simp only: mem[symmetric] if_True)
    next
      case False
      then show ?thesis by (simp only: mem[symmetric] if_False)
    qed
  qed
  show ?thesis unfolding memcpy_texels_def paint_def t A ..
qed

lemma stride_rows:
  fixes a b k :: nat
  assumes "0 < k" "a < b"
  shows "{j. a + k \<le> j \<and> j < b \<and> (j - (a + k)) mod k = 0} \<union> {a} =
         {j. a \<le> j \<and> j < b \<and> (j - a) mod k = 0}"
proof (rule set_eqI, rule iffI)
  fix j assume "j \<in> {j. a + k \<le> j \<and> j < b \<and> (j - (a + k)) mod k = 0} \<union> {a}"
  then consider "j = a" | "a + k \<le> j" "j < b" "(j - (a + k)) mod k = 0" by auto
  then show "j \<in> {j. a \<le> j \<and> j < b \<and> (j - a) mod k = 0}"
  proof cases
    case 1
    then show ?thesis using assms by simp
  next
    case 2
    have "j - a = (j - (a + k)) + k" using 2(1) by simp
    then have "(j - a) mod k = 0" using 2(3) by simp
    then show ?thesis using 2 by simp
  qed
next
  fix j assume "j \<in> {j. a \<le> j \<and> j < b \<and> (j - a) mod k = 0}"
  then have h: "a \<le> j" "j < b" "(j - a) mod k = 0" by simp_all
  show "j \<in> {j. a + k \<le> j \<and> j < b \<and> (j - (a + k)) mod k = 0} \<union> {a}"
  proof (cases "j = a")
    case True
    then show ?thesis by simp
  next
    case False
    then have pos: "0 < j - a" using h(1) by simp
    from h(3) have "k dvd j - a" by (simp add: dvd_eq_mod_eq_0)
    then have ge: "k \<le> j - a" using pos by (rule dvd_imp_le)
    have "(j - a) mod k = (j - a - k) mod k" using ge by (simp add: le_mod_geq)
    then have z: "(j - (a + k)) mod k = 0" using h(3) by simp
    have "a + k \<le> j" using ge h(1) by linarith
    then show ?thesis using z h by simp
  qed
qed

lemma copy_rows_paint:
  fixes w y0 ye stp :: "32 word"
  assumes nowrap: "unat ye + unat stp \<le> 2 ^ 32" and stp: "0 < unat stp"
    and geom: "xs \<le> xe" "xe \<le> unat w" and mul: "unat ye * unat w < 2 ^ 32"
  shows "copy_rows stp y0 ye (\<lambda>y. memcpy_texels (xs + unat (y * w)) src xs (xe - xs)) s =
      Some (paint (texel_rows (unat w) xs xe
                    {j. unat y0 \<le> j \<and> j < unat ye \<and> (j - unat y0) mod unat stp = 0})
                  (\<lambda>off. src (off mod unat w)) s)"
proof (induction "unat ye - unat y0" arbitrary: y0 s rule: less_induct)
  case less
  let ?body = "\<lambda>y. memcpy_texels (xs + unat (y * w)) src xs (xe - xs)"
  let ?f = "\<lambda>off. src (off mod unat w)"
  show ?case
  proof (cases "y0 < ye")
    case True
    then have lt: "unat y0 < unat ye" by (simp add: word_less_nat_alt)
    then have "unat y0 + unat stp < 2 ^ 32" using nowrap by simp
    then have nx: "unat (y0 + stp) = unat y0 + unat stp"
      by (simp add: unat_add_lem[THEN iffD1])
    have dec: "unat ye - unat (y0 + stp) < unat ye - unat y0" using lt stp nx by simp
    have "unat y0 * unat w \<le> unat ye * unat w" using lt by (intro mult_le_mono1) simp
    then have "unat y0 * unat w < 2 ^ 32" using mul by (rule le_less_trans)
    then have m: "unat (y0 * w) = unat y0 * unat w" by (simp add: unat_mult_lem[THEN iffD1])
    have b: "?body y0 s = paint (texel_rows (unat w) xs xe {unat y0}) ?f s"
      unfolding m by (rule memcpy_row[OF geom])
    have "copy_rows stp y0 ye ?body s = copy_rows stp (y0 + stp) ye ?body (?body y0 s)"
      using True by (subst copy_rows.simps) simp
    also have "\<dots> = Some (paint (texel_rows (unat w) xs xe
          {j. unat (y0 + stp) \<le> j \<and> j < unat ye \<and> (j - unat (y0 + stp)) mod unat stp = 0}) ?f (?body y0 s))"
      by (rule less.hyps[OF dec])
    also have "\<dots> = Some (paint (texel_rows (unat w) xs xe
          {j. unat y0 \<le> j \<and> j < unat ye \<and> (j - unat y0) mod unat stp = 0}) ?f s)"
      unfolding b paint_paint texel_rows_Un[symmetric] nx stride_rows[OF stp lt] ..
    finally show ?thesis .
  next
    case False
    then have "unat ye \<le> unat y0" by (simp add: word_less_nat_alt)
    then have e: "{j. unat y0 \<le> j \<and> j < unat ye \<and> (j - unat y0) mod unat stp = 0} = {}" by auto
    have "copy_rows stp y0 ye ?body s = Some s"
      using False by (subst copy_rows.simps) simp
    then show ?thesis unfolding e by simp
  qed
qed

lemma inside_no_wrap:
  fixes x width bound :: "32 word"
  assumes "unat x + unat width \<le> unat bound"
  shows "x \<le> bound" "x + width \<le> bound" "unat (x + width) = unat x + unat width"
    "x \<le> x + width"
proof -
  have "unat x + unat width < 2 ^ 32" using assms unat_lt32[of bound] by simp
  then show u: "unat (x + width) = unat x + unat width"
    by (simp add: unat_add_lem[THEN iffD1])
  show "x \<le> bound" using assms by (simp add: word_le_nat_alt)
  show "x + width \<le> bound" using assms u by (simp add: word_le_nat_alt)
  show "x \<le> x + width" using u by (simp add: word_le_nat_alt)
qed

lemma copy_row_as_memcpy:
  fixes w x_start x_end :: "32 word"
  assumes "x_start \<le> x_end"
  shows "copy_row w x_start ((ucast (x_end - x_start) :: 64 word) * 2) src =
     (\<lambda>y. memcpy_texels (unat x_start + unat (y * w)) src (unat x_start)
            (unat x_end - unat x_start))"
proof -
  have "unat (x_end - x_start) = unat x_end - unat x_start"
    using assms by (rule unat_sub)
  then show ?thesis
    unfolding copy_row_def x_size_texels(1) by simp
qed

lemma fold_rows_paint:
  fixes w :: "32 word"
  assumes "xs \<le> xe" "xe \<le> unat w" "\<forall>y\<in>set ys. unat (y * w) = unat y * unat w"
  shows "fold (\<lambda>y. memcpy_texels (xs + unat (y * w)) src xs (xe - xs)) ys s =
     paint (texel_rows (unat w) xs xe (unat ` set ys)) (\<lambda>off. src (off mod unat w)) s"
  using assms(3)
proof (induction ys arbitrary: s)
  case Nil
  then show ?case by simp
next
  case (Cons y ys)
  let ?body = "\<lambda>y. memcpy_texels (xs + unat (y * w)) src xs (xe - xs)"
  let ?f = "\<lambda>off. src (off mod unat w)"
  have m: "unat (y * w) = unat y * unat w" using Cons.prems by simp
  have b: "?body y s = paint (texel_rows (unat w) xs xe {unat y}) ?f s"
    unfolding m by (rule memcpy_row[OF assms(1,2)])
  have "fold ?body (y # ys) s = fold ?body ys (?body y s)" by simp
  also have "\<dots> = paint (texel_rows (unat w) xs xe (unat ` set ys)) ?f (?body y s)"
    using Cons.prems by (intro Cons.IH) simp
  also have "\<dots> = paint (texel_rows (unat w) xs xe (unat ` set (y # ys))) ?f s"
    unfolding b paint_paint texel_rows_Un[symmetric] by simp
  finally show ?case .
qed

lemma paint_cong: "(\<And>off. off \<in> A \<Longrightarrow> f off = g off) \<Longrightarrow> paint A f s = paint A g s"
  by (cases s) (auto simp add: paint_def fun_eq_iff)

lemma texel_rows_mod:
  assumes "off \<in> texel_rows W xs xe J" "xe \<le> W"
  shows "xs \<le> off mod W \<and> off mod W < xe \<and> off div W \<in> J"
proof -
  from assms(1) obtain i j where h: "off = j * W + i" "j \<in> J" "xs \<le> i" "i < xe"
    by (auto simp add: texel_rows_def)
  have "i < W" using h(4) assms(2) by simp
  then have "off mod W = i" "off div W = j" using h(1) by simp_all
  then show ?thesis using h by simp
qed

lemma rows_below:
  fixes w y_end fb_height :: "32 word"
  assumes "unat fb_width * unat fb_height < 2 ^ 32" "unat y_end \<le> unat fb_height" "y < y_end"
  shows "unat (y * fb_width) = unat y * unat fb_width"
proof -
  have "unat y \<le> unat fb_height" using assms(2,3) by (simp add: word_less_nat_alt)
  then have "unat y * unat fb_width \<le> unat fb_height * unat fb_width" by (rule mult_le_mono1)
  moreover have "unat fb_height * unat fb_width < 2 ^ 32" using assms(1) by (simp only: mult.commute)
  ultimately have "unat y * unat fb_width < 2 ^ 32" by (rule le_less_trans)
  then show ?thesis by (simp add: unat_mult_lem[THEN iffD1])
qed

lemma unat_image_word_range: "unat ` set (word_range lo hi) = {unat lo..<unat hi}"
proof -
  have u: "unat (of_nat n :: 32 word) = n" if "n < unat hi" for n
  proof -
    have "n < 2 ^ 32" using that unat_lt32[of hi] by simp
    then show ?thesis by (simp add: unat_of_nat)
  qed
  have "unat ` set (word_range lo hi) = (\<lambda>n. unat (of_nat n :: 32 word)) ` {unat lo..<unat hi}"
    by (simp add: word_range_def image_image)
  also have "\<dots> = (\<lambda>n. n) ` {unat lo..<unat hi}"
    by (rule image_cong) (simp_all add: u)
  finally show ?thesis by simp
qed

lemma fill_rect_solid_paint:
  assumes ok: "frame_buf_ok fb_width fb_height"
    and xin: "unat x + unat width \<le> unat fb_width"
    and yin: "unat y + unat height \<le> unat fb_height"
  shows "rgui_fill_rect scanline_even scanline_odd s fb_width fb_height x y width height
           color color thickness =
         Some (paint (texel_rows (unat fb_width) (unat x) (unat x + unat width)
                        {unat y..<unat y + unat height}) (\<lambda>_. color) s)"
proof -
  note cx = inside_no_wrap[OF xin] and cy = inside_no_wrap[OF yin]
  have wh: "unat fb_width * unat fb_height < 2 ^ 32"
    using ok by (simp add: frame_buf_ok_def)
  define x_size where "x_size = (ucast (x + width - x) :: 64 word) * 2"
  have unf: "rgui_fill_rect scanline_even scanline_odd s fb_width fb_height x y width height
           color color thickness =
      (if x_size = 0 then Some s
       else fill_rect_solid scanline_even s fb_width x y (x + width) (y + height) x_size color)"
    unfolding rgui_fill_rect_def Let_def x_size_def using cx(1,2) cy(1,2) by simp
  show ?thesis
  proof (cases "x_size = 0")
    case True
    then have "x + width = x" unfolding x_size_def by (simp only: x_size_texels(2))
    then have "unat width = 0" using cx(3) by simp
    then have "texel_rows (unat fb_width) (unat x) (unat x + unat width)
        {unat y..<unat y + unat height} = {}"
      by (auto simp add: texel_rows_def)
    then show ?thesis using True unf by simp
  next
    case False
    define src where "src = populate (\<lambda>_. color) x (x + width) scanline_even"
    let ?A = "texel_rows (unat fb_width) (unat x) (unat x + unat width)
        {unat y..<unat y + unat height}"
    have rows: "\<forall>v\<in>set (word_range y (y + height)). unat (v * fb_width) = unat v * unat fb_width"
    proof
      fix v assume "v \<in> set (word_range y (y + height))"
      then have "v < y + height" by (simp add: set_word_range)
      moreover have "unat (y + height) \<le> unat fb_height" using cy(3) yin by simp
      ultimately show "unat (v * fb_width) = unat v * unat fb_width"
        by (intro rows_below[OF wh])
    qed
    have img: "unat ` set (word_range y (y + height)) = {unat y..<unat y + unat height}"
      unfolding unat_image_word_range cy(3) ..
    have "fill_rect_solid scanline_even s fb_width x y (x + width) (y + height) x_size color =
        Some (fold (\<lambda>v. memcpy_texels (unat x + unat (v * fb_width)) src (unat x)
                          (unat (x + width) - unat x)) (word_range y (y + height)) s)"
      unfolding fill_rect_solid_def Let_def x_size_def copy_row_as_memcpy[OF cx(4)] src_def ..
    also have "\<dots> = Some (paint (texel_rows (unat fb_width) (unat x) (unat (x + width))
            (unat ` set (word_range y (y + height)))) (\<lambda>off. src (off mod unat fb_width)) s)"
      using cx(3) xin rows by (subst fold_rows_paint) simp_all
    also have "\<dots> = Some (paint ?A (\<lambda>off. src (off mod unat fb_width)) s)"
      unfolding img cx(3) ..
    also have "\<dots> = Some (paint ?A (\<lambda>_. color) s)"
    proof -
      have "src (off mod unat fb_width) = color" if "off \<in> ?A" for off
      proof -
        from texel_rows_mod[OF that xin]
        have "unat x \<le> off mod unat fb_width" "off mod unat fb_width < unat (x + width)"
          using cx(3) by simp_all
        then show ?thesis unfolding src_def by (simp add: populate_inside)
      qed
      then show ?thesis by (simp cong: paint_cong)
    qed
    finally show ?thesis using False unf by simp
  qed
qed

text \<open>
  Claim C2. For a rectangle that lies inside the buffer (\<open>x + width \<le> fb_width\<close> and
  \<open>y + height \<le> fb_height\<close>) and equal colours, \<^verbatim>\<open>rgui_fill_rect\<close> ends,
  sets every texel \<open>(i, j)\<close> with \<open>x \<le> i < x + width\<close> and \<open>y \<le> j < y + height\<close> to
  that colour, and writes to no other texel: everything outside the rectangle is
  unchanged.
\<close>

theorem fill_rect_solid_inside:
  assumes "frame_buf_ok fb_width fb_height"
    and "unat x + unat width \<le> unat fb_width"
    and "unat y + unat height \<le> unat fb_height"
  shows "\<exists>s'. rgui_fill_rect scanline_even scanline_odd s fb_width fb_height x y width height
                 color color thickness = Some s' \<and>
           texels s' =
             (\<lambda>off. if off \<in> {j * unat fb_width + i | i j.
                         unat x \<le> i \<and> i < unat x + unat width \<and>
                         unat y \<le> j \<and> j < unat y + unat height}
                     then color else texels s off) \<and>
           written s' = written s \<union>
             {j * unat fb_width + i | i j.
                unat x \<le> i \<and> i < unat x + unat width \<and>
                unat y \<le> j \<and> j < unat y + unat height}"
proof -
  have A: "texel_rows (unat fb_width) (unat x) (unat x + unat width)
             {unat y..<unat y + unat height} =
           {j * unat fb_width + i | i j.
              unat x \<le> i \<and> i < unat x + unat width \<and>
              unat y \<le> j \<and> j < unat y + unat height}"
    by (auto simp add: texel_rows_def)
  show ?thesis
    unfolding fill_rect_solid_paint[OF assms] A[symmetric]
    by (simp add: fun_eq_iff)
qed

theorem fill_rect_solid_inside_witness:
  "frame_buf_ok 256 192 \<and>
   unat (1 :: 32 word) + unat (3 :: 32 word) \<le> unat (256 :: 32 word) \<and>
   unat (2 :: 32 word) + unat (2 :: 32 word) \<le> unat (192 :: 32 word) \<and>
   (\<exists>s'. rgui_fill_rect blank blank fb_init 256 192 1 2 3 2 7 7 False = Some s' \<and>
         texels s' 513 = 7 \<and> texels s' 0 = 0 \<and> 513 \<in> written s')"
proof -
  have ok: "frame_buf_ok 256 192" by (simp add: frame_buf_ok_def RGUI_MAX_FB_WIDTH_def)
  have xin: "unat (1 :: 32 word) + unat (3 :: 32 word) \<le> unat (256 :: 32 word)" by simp
  have yin: "unat (2 :: 32 word) + unat (2 :: 32 word) \<le> unat (192 :: 32 word)" by simp
  define A where "A = {j * unat (256 :: 32 word) + i | i j.
      unat (1 :: 32 word) \<le> i \<and> i < unat (1 :: 32 word) + unat (3 :: 32 word) \<and>
      unat (2 :: 32 word) \<le> j \<and> j < unat (2 :: 32 word) + unat (2 :: 32 word)}"
  have "(513::nat) = 2 * unat (256 :: 32 word) + 1 \<and> unat (1 :: 32 word) \<le> 1 \<and>
      1 < unat (1 :: 32 word) + unat (3 :: 32 word) \<and>
      unat (2 :: 32 word) \<le> 2 \<and> 2 < unat (2 :: 32 word) + unat (2 :: 32 word)" by simp
  then have mem: "513 \<in> A" unfolding A_def by blast
  have nmem: "0 \<notin> A" unfolding A_def by simp
  from fill_rect_solid_inside[OF ok xin yin, of blank blank fb_init 7 False, folded A_def]
  obtain s' where r: "rgui_fill_rect blank blank fb_init 256 192 1 2 3 2 7 7 False = Some s'"
    and t: "texels s' = (\<lambda>off. if off \<in> A then 7 else texels fb_init off)"
    and w: "written s' = written fb_init \<union> A" by blast
  have "texels s' 513 = 7" "texels s' 0 = 0" "513 \<in> written s'"
    using mem nmem by (simp_all add: t w fb_init_def blank_def)
  with r ok xin yin show ?thesis by blast
qed

lemma copy_rows_copy_row:
  fixes fb_width fb_height x_start x_end y0 y_end stp :: "32 word"
  assumes xx: "x_start \<le> x_end" "unat x_end \<le> unat fb_width"
    and yy: "unat y_end \<le> unat fb_height"
    and wh: "unat fb_width * unat fb_height < 2 ^ 32" and h31: "unat fb_height < 2 ^ 31"
    and stp: "0 < unat stp" "unat stp \<le> 4"
  shows "copy_rows stp y0 y_end
           (copy_row fb_width x_start ((ucast (x_end - x_start) :: 64 word) * 2) src) s =
      Some (paint (texel_rows (unat fb_width) (unat x_start) (unat x_end)
                    {j. unat y0 \<le> j \<and> j < unat y_end \<and> (j - unat y0) mod unat stp = 0})
                  (\<lambda>off. src (off mod unat fb_width)) s)"
proof -
  have nowrap: "unat y_end + unat stp \<le> 2 ^ 32" using yy h31 stp(2) by simp
  have xs: "unat x_start \<le> unat x_end" using xx(1) by (simp add: word_le_nat_alt)
  have "unat y_end * unat fb_width \<le> unat fb_height * unat fb_width"
    using yy by (rule mult_le_mono1)
  moreover have "unat fb_height * unat fb_width < 2 ^ 32" using wh by (simp only: mult.commute)
  ultimately have mul: "unat y_end * unat fb_width < 2 ^ 32" by (rule le_less_trans)
  show ?thesis
    unfolding copy_row_as_memcpy[OF xx(1)]
    by (rule copy_rows_paint[OF nowrap stp(1) xs xx(2) mul])
qed

lemma word_and_1_even: "(v :: 32 word) AND 1 = 0 \<longleftrightarrow> even (unat v)"
  by (simp add: and_one_eq word_unat_eq_iff unat_mod flip: even_iff_mod_2_eq_zero)

lemma word_and_3_mod: "unat ((v :: 32 word) AND 3) = unat v mod 4"
proof -
  have "(3 :: 32 word) = mask 2" by (simp add: mask_eq_exp_minus_1)
  then have "v AND 3 = take_bit 2 v" by (simp add: take_bit_eq_mask)
  then have "unat (v AND 3) = take_bit 2 (unat v)" by (simp only: unsigned_take_bit_eq)
  then show ?thesis by (simp add: take_bit_eq_mod)
qed

lemma column_parity:
  assumes "i < 2 ^ 32"
  shows "(of_nat i :: 32 word) AND 1 = 0 \<longleftrightarrow> even i"
    and "drop_bit 1 (of_nat i :: 32 word) AND 1 = 0 \<longleftrightarrow> even (i div 2)"
proof -
  have u: "unat (of_nat i :: 32 word) = i" using assms by (simp add: unat_of_nat)
  show "(of_nat i :: 32 word) AND 1 = 0 \<longleftrightarrow> even i"
    unfolding word_and_1_even u ..
  have "unat (drop_bit 1 (of_nat i :: 32 word)) = i div 2"
    unfolding unat_drop_bit_eq u by (simp add: drop_bit_eq_div)
  then show "drop_bit 1 (of_nat i :: 32 word) AND 1 = 0 \<longleftrightarrow> even (i div 2)"
    unfolding word_and_1_even by simp
qed

lemma texels_paint_row:
  assumes "i < W" "xe \<le> W"
  shows "texels (paint (texel_rows W xs xe J) (\<lambda>off. src (off mod W)) s) (j * W + i) =
     (if j \<in> J \<and> xs \<le> i \<and> i < xe then src i else texels s (j * W + i))"
  using assms by (simp add: texel_rows_iff)

lemma stride2_member:
  fixes Y d :: nat
  shows "(d mod 2 = 0) \<longleftrightarrow> (even (Y + d) \<longleftrightarrow> even Y)"
    and "(1 \<le> d \<and> (d - 1) mod 2 = 0) \<longleftrightarrow> \<not> (even (Y + d) \<longleftrightarrow> even Y)"
  by presburger+

lemma stride4_member:
  fixes d :: nat
  shows "(1 \<le> d \<and> (d - 1) mod 4 = 0) \<longleftrightarrow> d mod 4 = 1"
    and "(2 \<le> d \<and> (d - 2) mod 4 = 0) \<longleftrightarrow> d mod 4 = 2"
    and "(3 \<le> d \<and> (d - 3) mod 4 = 0) \<longleftrightarrow> d mod 4 = 3"
  by presburger+

lemma thick_pattern:
  fixes Y d :: nat
  shows "even ((Y + d) div 2) \<longleftrightarrow>
     (if Y mod 4 = 1 then d mod 4 = 0 \<or> d mod 4 = 3
      else if Y mod 4 = 2 then d mod 4 = 2 \<or> d mod 4 = 3
      else if Y mod 4 = 3 then d mod 4 = 1 \<or> d mod 4 = 2
      else d mod 4 = 0 \<or> d mod 4 = 1)"
  by presburger

lemma unat_plus_small:
  fixes y :: "32 word"
  assumes "unat y < 2 ^ 31"
  shows "unat (y + 1) = unat y + 1" "unat (y + 2) = unat y + 2" "unat (y + 3) = unat y + 3"
proof -
  have "unat y + unat (1 :: 32 word) < 2 ^ 32" "unat y + unat (2 :: 32 word) < 2 ^ 32"
    "unat y + unat (3 :: 32 word) < 2 ^ 32" using assms by simp_all
  then show "unat (y + 1) = unat y + 1" "unat (y + 2) = unat y + 2" "unat (y + 3) = unat y + 3"
    by (simp_all add: unat_add_lem[THEN iffD1])
qed

lemma and_3_cases:
  fixes y :: "32 word"
  shows "y AND 3 = 1 \<longleftrightarrow> unat y mod 4 = 1" "y AND 3 = 2 \<longleftrightarrow> unat y mod 4 = 2"
    "y AND 3 = 3 \<longleftrightarrow> unat y mod 4 = 3"
  using word_and_3_mod[of y] by (simp_all add: word_unat_eq_iff)

text \<open>
  Claim C3. For a rectangle that lies inside the buffer and two different colours,
  \<^verbatim>\<open>rgui_fill_rect\<close> ends and sets the texel at the absolute buffer position
  \<open>(i, j)\<close> inside the rectangle, with \<open>thickness = false\<close>, to the dark colour exactly
  when \<open>i + j\<close> is even and to the light colour otherwise; with \<open>thickness = true\<close>
  the texel is dark exactly when \<open>(i >> 1) + (j >> 1)\<close> is even, that is, the
  checkerboard is made of 2x2 blocks aligned to even absolute coordinates, wherever the
  rectangle starts.
\<close>

theorem fill_rect_checkerboard:
  assumes ok: "frame_buf_ok fb_width fb_height"
    and xin: "unat x + unat width \<le> unat fb_width"
    and yin: "unat y + unat height \<le> unat fb_height"
    and ne: "dark_color \<noteq> light_color"
  shows "\<exists>s'. rgui_fill_rect scanline_even scanline_odd s fb_width fb_height x y width height
                 dark_color light_color thickness = Some s' \<and>
           (\<forall>i j. unat x \<le> i \<and> i < unat x + unat width \<and>
                  unat y \<le> j \<and> j < unat y + unat height \<longrightarrow>
              texels s' (j * unat fb_width + i) =
                (if thickness
                 then (if even (i div 2 + j div 2) then dark_color else light_color)
                 else (if even (i + j) then dark_color else light_color)))"
proof -
  note cx = inside_no_wrap[OF xin] and cy = inside_no_wrap[OF yin]
  have wh: "unat fb_width * unat fb_height < 2 ^ 32" and h31: "unat fb_height < 2 ^ 31"
    using ok by (simp_all add: frame_buf_ok_def)
  have y31: "unat y < 2 ^ 31" using yin h31 by simp
  define W where "W = unat fb_width"
  define X where "X = unat x"
  define Xe where "Xe = unat (x + width)"
  define Y where "Y = unat y"
  define Ye where "Ye = unat (y + height)"
  have XeW: "Xe \<le> W" and Xe: "Xe = X + unat width" and Ye: "Ye = Y + unat height"
    using xin cx(3) cy(3) by (simp_all add: Xe_def W_def X_def Ye_def Y_def)
  have YeH: "unat (y + height) \<le> unat fb_height" using cy(3) yin by simp
  define x_size where "x_size = (ucast (x + width - x) :: 64 word) * 2"
  have unf: "rgui_fill_rect scanline_even scanline_odd s fb_width fb_height x y width height
           dark_color light_color thickness =
      (if x_size = 0 then Some s
       else if thickness
         then fill_rect_thick scanline_even scanline_odd s fb_width x y (x + width) (y + height)
                x_size dark_color light_color
         else fill_rect_thin scanline_even scanline_odd s fb_width x y (x + width) (y + height)
                x_size dark_color light_color)"
    unfolding rgui_fill_rect_def Let_def x_size_def using cx(1,2) cy(1,2) ne by simp
  have loop: "copy_rows stp y0 (y + height) (copy_row fb_width x x_size src) t =
      Some (paint (texel_rows W X Xe {j. unat y0 \<le> j \<and> j < Ye \<and> (j - unat y0) mod unat stp = 0})
                  (\<lambda>off. src (off mod W)) t)"
    if "0 < unat stp" "unat stp \<le> 4" for stp y0 src t
    unfolding x_size_def W_def X_def Xe_def Ye_def
    using cx(3) xin by (intro copy_rows_copy_row[OF cx(4) _ YeH wh h31 that]) simp
  have px: "texels (paint (texel_rows W X Xe J) (\<lambda>off. src (off mod W)) t) (j * W + i) =
      (if j \<in> J then src i else texels t (j * W + i))"
    if "X \<le> i" "i < Xe" for J src t i j
    using that XeW by (subst texels_paint_row) simp_all
  show ?thesis
  proof (cases "x_size = 0")
    case True
    then have "x + width = x" unfolding x_size_def by (simp only: x_size_texels(2))
    then have "unat width = 0" using cx(3) by simp
    then have empty: "\<not> (unat x \<le> i \<and> i < unat x + unat width)" for i by simp
    show ?thesis
    proof (intro exI[of _ s] conjI allI impI)
      show "rgui_fill_rect scanline_even scanline_odd s fb_width fb_height x y width height
                 dark_color light_color thickness = Some s"
        using True unf by simp
    next
      fix i j
      assume "unat x \<le> i \<and> i < unat x + unat width \<and>
                  unat y \<le> j \<and> j < unat y + unat height"
      then have False using empty[of i] by blast
      then show "texels s (j * unat fb_width + i) =
                (if thickness
                 then (if even (i div 2 + j div 2) then dark_color else light_color)
                 else (if even (i + j) then dark_color else light_color))" ..
    qed
  next
    case nz: False
    show ?thesis
    proof (cases thickness)
      case False
      define sE where "sE = populate (\<lambda>x_index. if x_index AND 1 = 0 then dark_color else light_color)
                             x (x + width) scanline_even"
      define sO where "sO = populate (\<lambda>x_index. if x_index AND 1 = 0 then light_color else dark_color)
                             x (x + width) scanline_odd"
      define sa where "sa = (if y AND 1 = 0 then sE else sO)"
      define sb where "sb = (if y AND 1 = 0 then sO else sE)"
      define J0 where "J0 = {j. Y \<le> j \<and> j < Ye \<and> (j - Y) mod 2 = 0}"
      define J1 where "J1 = {j. Y + 1 \<le> j \<and> j < Ye \<and> (j - (Y + 1)) mod 2 = 0}"
      define s' where "s' = paint (texel_rows W X Xe J1) (\<lambda>off. sb (off mod W))
                              (paint (texel_rows W X Xe J0) (\<lambda>off. sa (off mod W)) s)"
      have two: "unat (2 :: 32 word) = 2" by simp
      have l0: "copy_rows 2 y (y + height) (copy_row fb_width x x_size sa) s =
          Some (paint (texel_rows W X Xe J0) (\<lambda>off. sa (off mod W)) s)"
        unfolding J0_def Y_def using loop[of 2 y sa s] by simp
      have l1: "copy_rows 2 (y + 1) (y + height) (copy_row fb_width x x_size sb) t =
          Some (paint (texel_rows W X Xe J1) (\<lambda>off. sb (off mod W)) t)" for t
        unfolding J1_def Y_def using loop[of 2 "y + 1" sb t] unat_plus_small(1)[OF y31]
        by simp
      have "fill_rect_thin scanline_even scanline_odd s fb_width x y (x + width) (y + height)
                x_size dark_color light_color =
          Option.bind (copy_rows 2 y (y + height) (copy_row fb_width x x_size sa) s)
            (\<lambda>data. copy_rows 2 (y + 1) (y + height) (copy_row fb_width x x_size sb) data)"
        unfolding fill_rect_thin_def Let_def sa_def sb_def sE_def sO_def by simp
      then have res: "rgui_fill_rect scanline_even scanline_odd s fb_width fb_height x y width height
                 dark_color light_color thickness = Some s'"
        using unf nz False by (simp add: l0 l1 s'_def)
      have tex: "texels s' (j * W + i) = (if even (i + j) then dark_color else light_color)"
        if ij: "X \<le> i" "i < Xe" "Y \<le> j" "j < Ye" for i j
      proof -
        obtain d where d: "j = Y + d" using ij(3) by (metis le_Suc_ex)
        have i32: "i < 2 ^ 32" using ij(2) unat_lt32[of "x + width"] by (simp add: Xe_def)
        have isE: "sE i = (if even i then dark_color else light_color)"
          unfolding sE_def using ij(1,2) column_parity(1)[OF i32]
          by (simp add: populate_inside X_def Xe_def)
        have isO: "sO i = (if even i then light_color else dark_color)"
          unfolding sO_def using ij(1,2) column_parity(1)[OF i32]
          by (simp add: populate_inside X_def Xe_def)
        have m0: "j \<in> J0 \<longleftrightarrow> (even j \<longleftrightarrow> even Y)"
          unfolding J0_def using ij(4) stride2_member(1)[of d Y] by (simp add: d)
        have m1: "j \<in> J1 \<longleftrightarrow> \<not> (even j \<longleftrightarrow> even Y)"
          unfolding J1_def using ij(4) stride2_member(2)[of d Y] by (simp add: d)
        have ye: "y AND 1 = 0 \<longleftrightarrow> even Y" unfolding Y_def by (rule word_and_1_even)
        have "texels s' (j * W + i) = (if j \<in> J1 then sb i else if j \<in> J0 then sa i
            else texels s (j * W + i))"
          unfolding s'_def by (simp only: px[OF ij(1,2)])
        also have "\<dots> = (if even (i + j) then dark_color else light_color)"
          unfolding m0 m1 sa_def sb_def ye by (auto simp add: isE isO)
        finally show ?thesis .
      qed
      show ?thesis
        using res tex False unfolding W_def X_def Xe Ye Y_def by (intro exI[of _ s']) simp
    next
      case True
      define sE where "sE = populate (\<lambda>x_index. if drop_bit 1 x_index AND 1 = 0 then dark_color else light_color)
                             x (x + width) scanline_even"
      define sO where "sO = populate (\<lambda>x_index. if drop_bit 1 x_index AND 1 = 0 then light_color else dark_color)
                             x (x + width) scanline_odd"
      define sa where "sa = (if Y mod 4 = 1 then sE else if Y mod 4 = 2 then sO
                             else if Y mod 4 = 3 then sO else sE)"
      define sb where "sb = (if Y mod 4 = 1 then sO else if Y mod 4 = 2 then sO
                             else if Y mod 4 = 3 then sE else sE)"
      define sc where "sc = (if Y mod 4 = 1 then sO else if Y mod 4 = 2 then sE
                             else if Y mod 4 = 3 then sE else sO)"
      define sd where "sd = (if Y mod 4 = 1 then sE else if Y mod 4 = 2 then sE
                             else if Y mod 4 = 3 then sO else sO)"
      define J0 where "J0 = {j. Y \<le> j \<and> j < Ye \<and> (j - Y) mod 4 = 0}"
      define J1 where "J1 = {j. Y + 1 \<le> j \<and> j < Ye \<and> (j - (Y + 1)) mod 4 = 0}"
      define J2 where "J2 = {j. Y + 2 \<le> j \<and> j < Ye \<and> (j - (Y + 2)) mod 4 = 0}"
      define J3 where "J3 = {j. Y + 3 \<le> j \<and> j < Ye \<and> (j - (Y + 3)) mod 4 = 0}"
      define s' where "s' = paint (texel_rows W X Xe J3) (\<lambda>off. sd (off mod W))
                             (paint (texel_rows W X Xe J2) (\<lambda>off. sc (off mod W))
                               (paint (texel_rows W X Xe J1) (\<lambda>off. sb (off mod W))
                                 (paint (texel_rows W X Xe J0) (\<lambda>off. sa (off mod W)) s)))"
      have four: "unat (4 :: 32 word) = 4" by simp
      have l0: "copy_rows 4 y (y + height) (copy_row fb_width x x_size src) t =
          Some (paint (texel_rows W X Xe J0) (\<lambda>off. src (off mod W)) t)" for src t
        unfolding J0_def Y_def using loop[of 4 y src t] by simp
      have l1: "copy_rows 4 (y + 1) (y + height) (copy_row fb_width x x_size src) t =
          Some (paint (texel_rows W X Xe J1) (\<lambda>off. src (off mod W)) t)" for src t
        unfolding J1_def Y_def using loop[of 4 "y + 1" src t] unat_plus_small(1)[OF y31]
        by simp
      have l2: "copy_rows 4 (y + 2) (y + height) (copy_row fb_width x x_size src) t =
          Some (paint (texel_rows W X Xe J2) (\<lambda>off. src (off mod W)) t)" for src t
        unfolding J2_def Y_def using loop[of 4 "y + 2" src t] unat_plus_small(2)[OF y31]
        by simp
      have l3: "copy_rows 4 (y + 3) (y + height) (copy_row fb_width x x_size src) t =
          Some (paint (texel_rows W X Xe J3) (\<lambda>off. src (off mod W)) t)" for src t
        unfolding J3_def Y_def using loop[of 4 "y + 3" src t] unat_plus_small(3)[OF y31]
        by simp
      have "fill_rect_thick scanline_even scanline_odd s fb_width x y (x + width) (y + height)
                x_size dark_color light_color = Some s'"
        unfolding fill_rect_thick_def Let_def s'_def sa_def sb_def sc_def sd_def
          sE_def[symmetric] sO_def[symmetric] and_3_cases Y_def[symmetric]
        by (simp add: l0 l1 l2 l3)
      then have res: "rgui_fill_rect scanline_even scanline_odd s fb_width fb_height x y width height
                 dark_color light_color thickness = Some s'"
        using unf nz True by simp
      have tex: "texels s' (j * W + i) =
          (if even (i div 2 + j div 2) then dark_color else light_color)"
        if ij: "X \<le> i" "i < Xe" "Y \<le> j" "j < Ye" for i j
      proof -
        obtain d where d: "j = Y + d" using ij(3) by (metis le_Suc_ex)
        have i32: "i < 2 ^ 32" using ij(2) unat_lt32[of "x + width"] by (simp add: Xe_def)
        have isE: "sE i = (if even (i div 2) then dark_color else light_color)"
          unfolding sE_def using ij(1,2) column_parity(2)[OF i32]
          by (simp add: populate_inside X_def Xe_def)
        have isO: "sO i = (if even (i div 2) then light_color else dark_color)"
          unfolding sO_def using ij(1,2) column_parity(2)[OF i32]
          by (simp add: populate_inside X_def Xe_def)
        have m0: "j \<in> J0 \<longleftrightarrow> d mod 4 = 0"
          unfolding J0_def using ij(4) by (simp add: d)
        have m1: "j \<in> J1 \<longleftrightarrow> d mod 4 = 1"
          unfolding J1_def using ij(4) stride4_member(1)[of d] by (simp add: d)
        have m2: "j \<in> J2 \<longleftrightarrow> d mod 4 = 2"
          unfolding J2_def using ij(4) stride4_member(2)[of d] by (simp add: d)
        have m3: "j \<in> J3 \<longleftrightarrow> d mod 4 = 3"
          unfolding J3_def using ij(4) stride4_member(3)[of d] by (simp add: d)
        have dm: "d mod 4 = 0 \<or> d mod 4 = 1 \<or> d mod 4 = 2 \<or> d mod 4 = 3" by presburger
        have "texels s' (j * W + i) =
            (if j \<in> J3 then sd i else if j \<in> J2 then sc i else if j \<in> J1 then sb i
             else if j \<in> J0 then sa i else texels s (j * W + i))"
          unfolding s'_def by (simp only: px[OF ij(1,2)])
        also have "\<dots> = (if even (j div 2) then sE i else sO i)"
        proof -
          have ym: "Y mod 4 = 0 \<or> Y mod 4 = 1 \<or> Y mod 4 = 2 \<or> Y mod 4 = 3" by presburger
          from ym dm show ?thesis
            unfolding m0 m1 m2 m3 unfolding d thick_pattern[of Y d]
            by (elim disjE) (simp_all add: sa_def sb_def sc_def sd_def)
        qed
        also have "\<dots> = (if even (i div 2 + j div 2) then dark_color else light_color)"
          unfolding isE isO by auto
        finally show ?thesis .
      qed
      show ?thesis
        using res tex True unfolding W_def X_def Xe Ye Y_def by (intro exI[of _ s']) simp
    qed
  qed
qed

theorem fill_rect_checkerboard_witness:
  "frame_buf_ok 256 192 \<and>
   unat (1 :: 32 word) + unat (3 :: 32 word) \<le> unat (256 :: 32 word) \<and>
   unat (2 :: 32 word) + unat (2 :: 32 word) \<le> unat (192 :: 32 word) \<and> (5 :: 16 word) \<noteq> 6 \<and>
   (\<exists>s'. rgui_fill_rect blank blank fb_init 256 192 1 2 3 2 5 6 False = Some s' \<and>
         texels s' 513 = 6 \<and> texels s' 514 = 5) \<and>
   (\<exists>s'. rgui_fill_rect blank blank fb_init 256 192 1 2 3 2 5 6 True = Some s' \<and>
         texels s' 513 = 6 \<and> texels s' 514 = 5 \<and> texels s' 515 = 5)"
proof -
  have ok: "frame_buf_ok 256 192" by (simp add: frame_buf_ok_def RGUI_MAX_FB_WIDTH_def)
  have xin: "unat (1 :: 32 word) + unat (3 :: 32 word) \<le> unat (256 :: 32 word)" by simp
  have yin: "unat (2 :: 32 word) + unat (2 :: 32 word) \<le> unat (192 :: 32 word)" by simp
  have ne: "(5 :: 16 word) \<noteq> 6" by simp
  from fill_rect_checkerboard[OF ok xin yin ne, of blank blank fb_init False]
  obtain s1 where r1: "rgui_fill_rect blank blank fb_init 256 192 1 2 3 2 5 6 False = Some s1"
    and t1: "\<And>i j. 1 \<le> i \<and> i < 4 \<and> 2 \<le> j \<and> j < 4 \<Longrightarrow>
          texels s1 (j * 256 + i) = (if even (i + j) then 5 else 6)"
    by auto
  from fill_rect_checkerboard[OF ok xin yin ne, of blank blank fb_init True]
  obtain s2 where r2: "rgui_fill_rect blank blank fb_init 256 192 1 2 3 2 5 6 True = Some s2"
    and t2: "\<And>i j. 1 \<le> i \<and> i < 4 \<and> 2 \<le> j \<and> j < 4 \<Longrightarrow>
          texels s2 (j * 256 + i) = (if even (i div 2 + j div 2) then 5 else 6)"
    by auto
  have "texels s1 513 = 6" "texels s1 514 = 5" using t1[of 1 2] t1[of 2 2] by simp_all
  moreover have "texels s2 513 = 6" "texels s2 514 = 5" "texels s2 515 = 5"
    using t2[of 1 2] t2[of 2 2] t2[of 3 2] by simp_all
  ultimately show ?thesis using ok xin yin ne r1 r2 by blast
qed

text \<open>
  Claim C1 on the input \<open>x = 10\<close>, \<open>width = 4294967291\<close> (the value of
  \<^verbatim>\<open>5 - 10\<close> in \<^verbatim>\<open>unsigned\<close>), \<open>y = 0\<close>, \<open>height = 1\<close> and a
  buffer of 256 x 192 texels: \<open>x + width\<close> wraps to 5, so that \<open>x_end = 5\<close> lies below
  \<open>x_start = 10\<close>, the difference \<open>x_end - x_start\<close> wraps to 4294967291, which is not
  zero, and \<^verbatim>\<open>memcpy\<close> copies that many texels from offset 10 on. The call
  writes the texel at offset 49152, the first one past the end of the buffer.
\<close>

theorem fill_rect_wrapped_width_writes_past_end:
  "wrote_at (rgui_fill_rect blank blank fb_init 256 192 10 0 0xFFFFFFFB 1 7 7 False) 49152"
  by (simp add: rgui_fill_rect_def fill_rect_solid_def copy_row_def wrote_at_def Let_def
      word_range_def memcpy_texels_def populate_def fb_init_def)

section \<open>Properties of the particle effects\<close>

subsection \<open>Constants of type float and the particle loop\<close>

lemma ilog2_eq:
  fixes x :: rat
  assumes "2 powi e \<le> x" "x < 2 powi (e + 1)"
  shows "ilog2 x = e"
proof -
  have pos: "0 < x" using assms(1) zero_less_power_int[of "2::rat" e] by linarith
  from ilog2_bounds[OF pos] have b: "2 powi ilog2 x \<le> x" "x < 2 powi (ilog2 x + 1)" by simp_all
  have "\<not> ilog2 x < e"
  proof
    assume "ilog2 x < e"
    then have "ilog2 x + 1 \<le> e" by simp
    then have "(2::rat) powi (ilog2 x + 1) \<le> 2 powi e" by (intro power_int_increasing) simp_all
    with b(2) assms(1) show False by linarith
  qed
  moreover have "\<not> e < ilog2 x"
  proof
    assume "e < ilog2 x"
    then have "e + 1 \<le> ilog2 x" by simp
    then have "(2::rat) powi (e + 1) \<le> 2 powi ilog2 x" by (intro power_int_increasing) simp_all
    with b(1) assms(2) show False by linarith
  qed
  ultimately show ?thesis by simp
qed

lemma round_even_eq:
  assumes "of_int m - 1 / 2 < y" "y < of_int m + 1 / 2"
  shows "round_even y = m"
proof -
  from round_even_err[of y] have "\<bar>of_int (round_even y) - y\<bar> \<le> 1 / 2" .
  with assms have "\<bar>(of_int (round_even y) :: rat) - of_int m\<bar> < 1" by linarith
  then have "\<bar>(of_int (round_even y - m) :: rat)\<bar> < 1" by simp
  then have "\<bar>round_even y - m\<bar> < 1" by (simp only: of_int_abs[symmetric] of_int_less_1_iff)
  then show ?thesis by simp
qed

lemma fl_round_eq:
  assumes "2 powi e \<le> \<bar>x\<bar>" "\<bar>x\<bar> < 2 powi (e + 1)"
    and "of_int m - 1 / 2 < x / 2 powi (e - int p + 1)"
    and "x / 2 powi (e - int p + 1) < of_int m + 1 / 2"
  shows "fl_round p x = of_int m * 2 powi (e - int p + 1)"
proof -
  have e: "ilog2 \<bar>x\<bar> = e" using assms(1,2) by (rule ilog2_eq)
  have "0 < \<bar>x\<bar>" using assms(1) zero_less_power_int[of "2::rat" e] by linarith
  then have xn: "x \<noteq> 0" by simp
  have r: "round_even (x / 2 powi (e - int p + 1)) = m"
    using assms(3,4) by (rule round_even_eq)
  show ?thesis using xn by (simp add: fl_round_def Let_def e r)
qed

lemma f32_tenth: "f32 (1 / 10) = 13421773 / 2 ^ 27"
  unfolding f32_def using fl_round_eq[of "-4" "1 / 10" 13421773 24] by simp

lemma f32_four_tenths: "f32 (4 / 10) = 13421773 / 2 ^ 25"
  unfolding f32_def using fl_round_eq[of "-2" "4 / 10" 13421773 24] by simp

lemma f32_hundredth: "f32 (1 / 100) = 10737418 / 2 ^ 30"
  unfolding f32_def using fl_round_eq[of "-7" "1 / 100" 10737418 24] by simp

lemma f32_85: "f32 (85 / 100) = 14260634 / 2 ^ 24"
  unfolding f32_def using fl_round_eq[of "-1" "85 / 100" 14260634 24] by simp

lemma snow_clamp_c_range: "- f32 (4 / 10) \<le> snow_clamp_c v \<and> snow_clamp_c v \<le> f32 (1 / 10)"
  unfolding snow_clamp_c_def Let_def f32_tenth f32_four_tenths by simp

lemma snow_clamp_d_range: "- f32 (1 / 10) \<le> snow_clamp_d v \<and> snow_clamp_d v \<le> f32 (4 / 10)"
  unfolding snow_clamp_d_def Let_def f32_tenth f32_four_tenths by simp

lemma particle_loop_invariant:
  assumes body: "\<And>i p st. i \<in> set js \<Longrightarrow> \<exists>p' st'. body i p st = Some (p', st') \<and> Q i p'"
    and "distinct js" and "\<forall>i\<in>set js. i < length ps"
  shows "\<exists>ps' st'. particle_loop body js ps st = Some (ps', st') \<and> length ps' = length ps \<and>
           (\<forall>i\<in>set js. Q i (ps' ! i)) \<and> (\<forall>i. i \<notin> set js \<longrightarrow> ps' ! i = ps ! i)"
  using assms
proof (induction js arbitrary: ps st)
  case Nil
  then show ?case by simp
next
  case (Cons j js)
  from Cons.prems(1)[of j "ps ! j" st] obtain p' st1
    where b: "body j (ps ! j) st = Some (p', st1)" and q: "Q j p'" by auto
  have jn: "j \<notin> set js" and dj: "distinct js" using Cons.prems(2) by simp_all
  have len: "\<forall>i\<in>set js. i < length (ps[j := p'])" using Cons.prems(3) by simp
  have jl: "j < length ps" using Cons.prems(3) by simp
  from Cons.IH[OF _ dj len, of st1] Cons.prems(1)
  obtain ps' st' where r: "particle_loop body js (ps[j := p']) st1 = Some (ps', st')"
    and l: "length ps' = length (ps[j := p'])"
    and inv: "\<forall>i\<in>set js. Q i (ps' ! i)"
    and rest: "\<forall>i. i \<notin> set js \<longrightarrow> ps' ! i = (ps[j := p']) ! i"
    by (metis list.set_intros(2))
  have "ps' ! j = p'" using rest jn jl by simp
  then have "\<forall>i\<in>set (j # js). Q i (ps' ! i)" using inv q by simp
  moreover have "\<forall>i. i \<notin> set (j # js) \<longrightarrow> ps' ! i = ps ! i" using rest by simp
  ultimately show ?case using b r l by simp
qed

subsection \<open>Snow: velocity\<close>

lemma of_unsigned_eq_0: "of_unsigned w = 0 \<longleftrightarrow> w = 0"
proof -
  have "of_unsigned w = 0 \<longleftrightarrow> unat w = 0"
    unfolding of_unsigned_def by (simp only: of_nat_eq_0_iff)
  also have "\<dots> \<longleftrightarrow> w = 0" by (rule unat_eq_0)
  finally show ?thesis .
qed

lemma snow_particle_velocity:
  assumes "fb_width \<noteq> 0" "fb_height \<noteq> 0"
  shows "\<exists>p' fb'. snow_particle effect color speed fb_width fb_height i r1 r2 p fb = Some (p', fb') \<and>
           - f32 (4 / 10) \<le> p_c p' \<and> p_c p' \<le> f32 (1 / 10) \<and>
           - f32 (1 / 10) \<le> p_d p' \<and> p_d p' \<le> f32 (4 / 10)"
proof -
  have w: "of_unsigned fb_width \<noteq> 0" and h: "of_unsigned fb_height \<noteq> 0"
    using assms by (simp_all only: of_unsigned_eq_0 not_False_eq_True)
  show ?thesis
    unfolding snow_particle_def Let_def c_fmod_def
    using w h snow_clamp_c_range snow_clamp_d_range
    by (simp split: prod.splits)
qed

lemma render_snow_velocity:
  assumes len: "length particles = RGUI_NUM_PARTICLES"
    and dims: "fb_width \<noteq> 0" "fb_height \<noteq> 0"
  shows "\<exists>particles' st'.
           render_snow rand effect color speed fb_width fb_height particles st =
             Some (particles', st') \<and>
           length particles' = RGUI_NUM_PARTICLES \<and>
           (\<forall>p\<in>set particles'.
              - f32 (4 / 10) \<le> p_c p \<and> p_c p \<le> f32 (1 / 10) \<and>
              - f32 (1 / 10) \<le> p_d p \<and> p_d p \<le> f32 (4 / 10))"
proof -
  let ?Q = "\<lambda>(i::nat) p. - f32 (4 / 10) \<le> p_c p \<and> p_c p \<le> f32 (1 / 10) \<and>
              - f32 (1 / 10) \<le> p_d p \<and> p_d p \<le> f32 (4 / 10)"
  let ?body = "\<lambda>i particle (k, data).
          map_option (\<lambda>(particle, data). (particle, (k + 2, data)))
            (snow_particle effect color speed fb_width fb_height i
               (rand k) (rand (k + 1)) particle data)"
  have body: "\<exists>p' st'. ?body i p st = Some (p', st') \<and> ?Q i p'" for i p st
  proof -
    obtain k data where st: "st = (k, data)" by (cases st)
    from snow_particle_velocity[OF dims, of effect color speed i "rand k" "rand (k + 1)" p data]
    show ?thesis unfolding st by auto
  qed
  have idx: "\<forall>i\<in>set [0..<RGUI_NUM_PARTICLES]. i < length particles" using len by simp
  from particle_loop_invariant[of "[0..<RGUI_NUM_PARTICLES]" ?body ?Q particles st, OF body _ idx]
  obtain ps' st' where r: "particle_loop ?body [0..<RGUI_NUM_PARTICLES] particles st = Some (ps', st')"
    and l: "length ps' = length particles"
    and q: "\<forall>i\<in>set [0..<RGUI_NUM_PARTICLES]. ?Q i (ps' ! i)"
    by auto
  have "?Q 0 p" if "p \<in> set ps'" for p
  proof -
    from that obtain i where "i < length ps'" "ps' ! i = p" by (auto simp add: in_set_conv_nth)
    then show ?thesis using q l len by auto
  qed
  then show ?thesis using r l len unfolding render_snow_def by auto
qed

lemma render_snow_frames_velocity:
  assumes len: "length particles = RGUI_NUM_PARTICLES"
    and dims: "fb_width \<noteq> 0" "fb_height \<noteq> 0"
    and init: "\<forall>p\<in>set particles.
              - f32 (4 / 10) \<le> p_c p \<and> p_c p \<le> f32 (1 / 10) \<and>
              - f32 (1 / 10) \<le> p_d p \<and> p_d p \<le> f32 (4 / 10)"
  shows "\<exists>particles' st'.
           render_snow_frames rand effect color fb_width fb_height speeds particles st =
             Some (particles', st') \<and>
           length particles' = RGUI_NUM_PARTICLES \<and>
           (\<forall>p\<in>set particles'.
              - f32 (4 / 10) \<le> p_c p \<and> p_c p \<le> f32 (1 / 10) \<and>
              - f32 (1 / 10) \<le> p_d p \<and> p_d p \<le> f32 (4 / 10))"
  using len init
proof (induction speeds arbitrary: particles st)
  case Nil
  then show ?case by simp
next
  case (Cons speed speeds)
  from render_snow_velocity[OF Cons.prems(1) dims, of rand effect color speed st]
  obtain ps1 st1 where r: "render_snow rand effect color speed fb_width fb_height particles st =
             Some (ps1, st1)"
    and l: "length ps1 = RGUI_NUM_PARTICLES"
    and v: "\<forall>p\<in>set ps1.
              - f32 (4 / 10) \<le> p_c p \<and> p_c p \<le> f32 (1 / 10) \<and>
              - f32 (1 / 10) \<le> p_d p \<and> p_d p \<le> f32 (4 / 10)" by blast
  from Cons.IH[OF l v, of st1] show ?case using r by simp
qed

text \<open>
  Claim C7, amended. For the Snow and SnowAlt effects, after any number \<open>N \<ge> 1\<close> of
  successive calls of the renderer, whatever the values returned by \<^verbatim>\<open>rand()\<close>,
  the speed factors of the frames and the contents of the pool before the first call,
  every call returns and every particle of the pool has its horizontal velocity \<open>c\<close>
  between \<^verbatim>\<open>-0.4f\<close> and \<^verbatim>\<open>0.1f\<close> and its vertical velocity \<open>d\<close> between
  \<^verbatim>\<open>-0.1f\<close> and \<^verbatim>\<open>0.4f\<close>. The bounds are the \<^verbatim>\<open>float\<close> constants the
  source compares with: \<^verbatim>\<open>0.4f\<close> is \<open>13421773 / 2 ^ 25\<close> and \<^verbatim>\<open>0.1f\<close> is
  \<open>13421773 / 2 ^ 27\<close>, each slightly above the decimal fraction, so the intervals are
  slightly wider than \<open>[-0.4, 0.1]\<close> and \<open>[-0.1, 0.4]\<close>.
\<close>

theorem snow_velocity_float_bounds:
  assumes "length particles = RGUI_NUM_PARTICLES"
    and "fb_width \<noteq> 0" and "fb_height \<noteq> 0" and "speeds \<noteq> []"
  shows "f32 (4 / 10) = 13421773 / 2 ^ 25 \<and> f32 (1 / 10) = 13421773 / 2 ^ 27 \<and>
         (\<exists>particles' st'.
            render_snow_frames rand effect particle_color fb_width fb_height speeds particles st =
              Some (particles', st') \<and>
            length particles' = RGUI_NUM_PARTICLES \<and>
            (\<forall>p\<in>set particles'.
               - (13421773 / 2 ^ 25) \<le> p_c p \<and> p_c p \<le> 13421773 / 2 ^ 27 \<and>
               - (13421773 / 2 ^ 27) \<le> p_d p \<and> p_d p \<le> 13421773 / 2 ^ 25))"
proof -
  from assms(4) obtain speed rest where s: "speeds = speed # rest" by (cases speeds) auto
  from render_snow_velocity[OF assms(1,2,3), of rand effect particle_color speed st]
  obtain ps1 st1 where r: "render_snow rand effect particle_color speed fb_width fb_height
             particles st = Some (ps1, st1)"
    and l: "length ps1 = RGUI_NUM_PARTICLES"
    and v: "\<forall>p\<in>set ps1.
              - f32 (4 / 10) \<le> p_c p \<and> p_c p \<le> f32 (1 / 10) \<and>
              - f32 (1 / 10) \<le> p_d p \<and> p_d p \<le> f32 (4 / 10)" by blast
  from render_snow_frames_velocity[OF l assms(2,3) v, of rand effect particle_color rest st1]
  obtain ps' st' where r': "render_snow_frames rand effect particle_color fb_width fb_height
             rest ps1 st1 = Some (ps', st')"
    and l': "length ps' = RGUI_NUM_PARTICLES"
    and v': "\<forall>p\<in>set ps'.
              - f32 (4 / 10) \<le> p_c p \<and> p_c p \<le> f32 (1 / 10) \<and>
              - f32 (1 / 10) \<le> p_d p \<and> p_d p \<le> f32 (4 / 10)" by blast
  have "render_snow_frames rand effect particle_color fb_width fb_height speeds particles st =
             Some (ps', st')" unfolding s using r r' by simp
  then show ?thesis using l' v' f32_tenth f32_four_tenths
    unfolding f32_tenth f32_four_tenths by blast
qed

theorem snow_velocity_float_bounds_witness:
  "length (replicate 256 \<lparr>p_a = 0, p_b = 0, p_c = 5, p_d = - 5\<rparr>) = RGUI_NUM_PARTICLES \<and>
   (256 :: 32 word) \<noteq> 0 \<and> (192 :: 32 word) \<noteq> 0 \<and> [1 :: rat, 2] \<noteq> [] \<and>
   (\<exists>particles' st'.
      render_snow_frames id RGUI_PARTICLE_EFFECT_SNOW 9 256 192 [1, 2]
        (replicate 256 \<lparr>p_a = 0, p_b = 0, p_c = 5, p_d = - 5\<rparr>) (0, fb_init) =
        Some (particles', st') \<and>
      p_c (particles' ! 0) \<le> 13421773 / 2 ^ 27 \<and> - (13421773 / 2 ^ 27) \<le> p_d (particles' ! 0))"
proof -
  have len: "length (replicate 256 \<lparr>p_a = 0, p_b = 0, p_c = 5, p_d = - 5\<rparr>) = RGUI_NUM_PARTICLES"
    by (simp add: RGUI_NUM_PARTICLES_def)
  have w: "(256 :: 32 word) \<noteq> 0" and h: "(192 :: 32 word) \<noteq> 0" and s: "[1 :: rat, 2] \<noteq> []"
    by simp_all
  from snow_velocity_float_bounds[OF len w h s, of id RGUI_PARTICLE_EFFECT_SNOW 9 "(0, fb_init)"]
  obtain ps' st' where r: "render_snow_frames id RGUI_PARTICLE_EFFECT_SNOW 9 256 192 [1, 2]
        (replicate 256 \<lparr>p_a = 0, p_b = 0, p_c = 5, p_d = - 5\<rparr>) (0, fb_init) = Some (ps', st')"
    and l: "length ps' = RGUI_NUM_PARTICLES"
    and v: "\<forall>p\<in>set ps'. - (13421773 / 2 ^ 25) \<le> p_c p \<and> p_c p \<le> 13421773 / 2 ^ 27 \<and>
              - (13421773 / 2 ^ 27) \<le> p_d p \<and> p_d p \<le> 13421773 / 2 ^ 25" by blast
  have "ps' ! 0 \<in> set ps'" using l by (simp add: RGUI_NUM_PARTICLES_def)
  with v have "p_c (ps' ! 0) \<le> 13421773 / 2 ^ 27 \<and> - (13421773 / 2 ^ 27) \<le> p_d (ps' ! 0)"
    by blast
  with r len w h s show ?thesis by blast
qed

subsection \<open>Rain: number of drops\<close>

lemma f32_rel_pos:
  assumes "0 < x"
  shows "x * (16777215 / 16777216) \<le> f32 x" "f32 x \<le> x * (16777217 / 16777216)"
proof -
  have "x \<noteq> 0" using assms by simp
  from fl_round_rel[OF this, of 24] have "\<bar>f32 x - x\<bar> \<le> x * (1 / 16777216)"
    using assms by (simp add: f32_def power_int_minus_divide)
  then show "x * (16777215 / 16777216) \<le> f32 x" "f32 x \<le> x * (16777217 / 16777216)"
    by linarith+
qed

lemma f32_zero [simp]: "f32 0 = 0"
  by (simp add: f32_def fl_round_def)

lemma f32_nat: "n < 2 ^ 24 \<Longrightarrow> f32 (of_nat n) = of_nat n"
  unfolding f32_def by (rule fl_round_of_nat)

lemma rain_float_bounds:
  fixes W :: rat
  assumes "0 < W"
  defines "R \<equiv> f32 (f32 (f32 (85 / 100) * f32 (f32 W / 426)) * 256)"
  shows "W * (256 * (14260634 / 2 ^ 24) * (16777215 / 16777216) ^ 4 / 426) \<le> R"
    and "R \<le> W * (256 * (14260634 / 2 ^ 24) * (16777217 / 16777216) ^ 4 / 426)"
proof -
  define A where "A = f32 W"
  define Q where "Q = f32 (A / 426)"
  define P where "P = f32 (14260634 / 2 ^ 24 * Q)"
  have R: "R = f32 (P * 256)" unfolding R_def P_def Q_def A_def f32_85 ..
  note a = f32_rel_pos[OF assms(1), folded A_def]
  have "0 < W * (16777215 / 16777216)" using assms(1) by simp
  then have A0: "0 < A" using a(1) by linarith
  then have "0 < A / 426" by simp
  note q = f32_rel_pos[OF this, folded Q_def]
  have "0 < A / 426 * (16777215 / 16777216)" using A0 by simp
  then have Q0: "0 < Q" using q(1) by linarith
  then have "0 < 14260634 / 2 ^ 24 * Q" by simp
  note p = f32_rel_pos[OF this, folded P_def]
  have "0 < 14260634 / 2 ^ 24 * Q * (16777215 / 16777216)" using Q0 by simp
  then have P0: "0 < P" using p(1) by linarith
  then have "0 < P * 256" by simp
  note r = f32_rel_pos[OF this, folded R]
  show "W * (256 * (14260634 / 2 ^ 24) * (16777215 / 16777216) ^ 4 / 426) \<le> R"
    using a(1) q(1) p(1) r(1) by (simp add: power4_eq_xxxx; linarith)
  show "R \<le> W * (256 * (14260634 / 2 ^ 24) * (16777217 / 16777216) ^ 4 / 426)"
    using a(2) q(2) p(2) r(2) by (simp add: power4_eq_xxxx; linarith)
qed

lemma drops_word:
  assumes "0 \<le> k" "k < 2 ^ 32"
  shows "unat (let num = (word_of_int k :: 32 word) in if num < 256 then num else 256) =
     min 256 (nat k)"
proof -
  have u: "uint (word_of_int k :: 32 word) = k"
    using assms by (simp add: uint_word_of_int take_bit_eq_mod)
  then have n: "unat (word_of_int k :: 32 word) = nat k" by (simp only: unat_eq_nat_uint)
  show ?thesis using assms by (simp add: Let_def word_less_nat_alt n)
qed

lemma rain_fraction:
  fixes W :: nat
  assumes "0 < W" "W \<le> 501"
  shows "1 \<le> (544 * W) mod 1065"
proof (rule ccontr)
  assume "\<not> 1 \<le> (544 * W) mod 1065"
  then have "(544 * W) mod 1065 = 0" by simp
  then have "1065 dvd 544 * W" by (simp add: dvd_eq_mod_eq_0)
  then have "1065 dvd 139 * (544 * W)" by (rule dvd_mult)
  moreover have "139 * (544 * W) = 1065 * (71 * W) + W" by simp
  ultimately have "1065 dvd 1065 * (71 * W) + W" by simp
  then have "1065 dvd W" by (simp only: dvd_add_right_iff dvd_triv_left)
  then have "1065 \<le> W" using assms(1) by (rule dvd_imp_le)
  with assms(2) show False by simp
qed

lemma rain_exact_value:
  "(85 / 100) * (of_nat W / 426) * 256 = (of_nat (544 * W) / 1065 :: rat)"
  by simp

lemma rain_num_drops_unfold:
  "rain_num_drops fb_width =
     (let num_drops = to_unsigned (f32 (f32 (f32 (85 / 100) *
            f32 (f32 (of_nat (unat fb_width)) / 426)) * 256))
      in if num_drops < 256 then num_drops else 256)"
proof -
  have a: "f32 (of_nat RGUI_MAX_FB_WIDTH) = 426"
    using f32_nat[of 426] by (simp add: RGUI_MAX_FB_WIDTH_def)
  have b: "f32 (of_nat RGUI_NUM_PARTICLES) = 256"
    using f32_nat[of 256] by (simp add: RGUI_NUM_PARTICLES_def)
  have c: "(of_nat RGUI_NUM_PARTICLES :: 32 word) = 256" by (simp add: RGUI_NUM_PARTICLES_def)
  show ?thesis unfolding rain_num_drops_def a b c of_unsigned_def ..
qed

lemma rain_num_drops_formula:
  "unat (rain_num_drops fb_width) =
     min 256 (nat \<lfloor>(85 / 100) * (of_nat (unat fb_width) / 426) * 256 :: rat\<rfloor>)"
proof -
  define W where "W = unat fb_width"
  define Wr :: rat where "Wr = of_nat W"
  define R where "R = f32 (f32 (f32 (85 / 100) * f32 (f32 Wr / 426)) * 256)"
  define m where "m = 544 * W"
  have v: "(85 / 100) * (of_nat (unat fb_width) / 426) * 256 = (of_nat m / 1065 :: rat)"
    unfolding m_def W_def by (rule rain_exact_value)
  have fl: "\<lfloor>of_nat m / 1065 :: rat\<rfloor> = int (m div 1065)"
    using floor_divide_of_nat_eq[of m 1065, where ?'a = rat] by simp
  have unf: "rain_num_drops fb_width =
      (let num_drops = to_unsigned R in if num_drops < 256 then num_drops else 256)"
    unfolding R_def Wr_def W_def by (rule rain_num_drops_unfold)
  have W32: "W < 2 ^ 32" unfolding W_def by (rule unat_lt32)
  show ?thesis
  proof (cases "W = 0")
    case True
    then have "R = 0" by (simp add: R_def Wr_def)
    then have "to_unsigned R = 0" by (simp add: to_unsigned_def c_trunc_def)
    then show ?thesis using True unfolding unf v fl m_def by simp
  next
    case False
    then have pos: "0 < Wr" by (simp add: Wr_def)
    note b = rain_float_bounds[OF pos, folded R_def]
    have R0: "0 \<le> R" using b(1) pos by (simp add: power4_eq_xxxx; linarith)
    then have tu: "to_unsigned R = word_of_int \<lfloor>R\<rfloor>" by (simp add: to_unsigned_def c_trunc_def)
    have fl0: "0 \<le> \<lfloor>R\<rfloor>" using R0 by simp
    have "Wr < 2 ^ 32" using W32 unfolding Wr_def
      by (metis of_nat_less_iff of_nat_numeral of_nat_power)
    then have "R < 2 ^ 32" using b(2) pos by (simp add: power4_eq_xxxx; linarith)
    then have fl32: "\<lfloor>R\<rfloor> < 2 ^ 32" by (simp add: floor_less_iff)
    have res: "unat (rain_num_drops fb_width) = min 256 (nat \<lfloor>R\<rfloor>)"
      unfolding unf tu by (rule drops_word[OF fl0 fl32])
    show ?thesis
    proof (cases "W \<le> 501")
      case True
      have Wr1: "1 \<le> Wr" "Wr \<le> 501" using False True by (simp_all add: Wr_def)
      define n where "n = m div 1065"
      define f where "f = m mod 1065"
      have mf: "m = 1065 * n + f" unfolding n_def f_def by simp
      have f1: "1 \<le> f" unfolding f_def m_def using False True by (intro rain_fraction) simp_all
      have f2: "f \<le> 1064" unfolding f_def by (simp add: less_Suc_eq_le[symmetric])
      have "(of_nat m :: rat) = 1065 * of_nat n + of_nat f" unfolding mf by simp
      moreover have "(of_nat m :: rat) = 544 * Wr" unfolding m_def Wr_def by simp
      moreover have "(1 :: rat) \<le> of_nat f" "(of_nat f :: rat) \<le> 1064" using f1 f2 by simp_all
      ultimately have n1: "of_nat n \<le> (544 * Wr - 1) / 1065" "(544 * Wr - 1064) / 1065 \<le> of_nat n"
        by (simp_all add: field_simps)
      have lo: "(of_int (int n) :: rat) \<le> R"
        using b(1) n1(1) Wr1 by (simp add: power4_eq_xxxx; linarith)
      have hi: "R < of_int (int n) + 1"
        using b(2) n1(2) Wr1 by (simp add: power4_eq_xxxx; linarith)
      have "\<lfloor>R\<rfloor> = int n" using lo hi by (rule floor_unique)
      then show ?thesis unfolding res v fl n_def by simp
    next
      case False
      then have "502 \<le> W" by simp
      then have Wr502: "502 \<le> Wr" unfolding Wr_def
        by (metis of_nat_le_iff of_nat_numeral)
      have "256 \<le> R" using b(1) Wr502 by (simp add: power4_eq_xxxx; linarith)
      then have "256 \<le> \<lfloor>R\<rfloor>" by (simp add: le_floor_iff)
      then have a: "min 256 (nat \<lfloor>R\<rfloor>) = 256" by linarith
      have "256 \<le> m div 1065" unfolding m_def using \<open>502 \<le> W\<close> by simp
      then have "min 256 (nat (int (m div 1065))) = 256" by simp
      then show ?thesis unfolding res v fl a by simp
    qed
  qed
qed

lemma rain_num_drops_426: "rain_num_drops 426 = 217"
proof -
  have "\<lfloor>(85 / 100) * (of_nat (unat (426 :: 32 word)) / 426) * 256 :: rat\<rfloor> = 217"
    by (rule floor_unique) simp_all
  then have "unat (rain_num_drops 426) = 217"
    unfolding rain_num_drops_formula by simp
  then show ?thesis by (simp add: word_unat_eq_iff)
qed

lemma rain_num_drops_213: "rain_num_drops 213 = 108"
proof -
  have "\<lfloor>(85 / 100) * (of_nat (unat (213 :: 32 word)) / 426) * 256 :: rat\<rfloor> = 108"
    by (rule floor_unique) simp_all
  then have "unat (rain_num_drops 213) = 108"
    unfolding rain_num_drops_formula by simp
  then show ?thesis by (simp add: word_unat_eq_iff)
qed

lemma rain_particle_some:
  assumes "fb_width div 3 \<noteq> 0"
  shows "\<exists>p' st'. rain_particle rand color speed fb_width fb_height p st = Some (p', st')"
  using assms unfolding rain_particle_def Let_def by (simp split: prod.splits)

lemma particle_loop_rest:
  assumes "particle_loop body js ps st = Some (ps', st')"
  shows "length ps' = length ps \<and> (\<forall>i. i \<notin> set js \<longrightarrow> ps' ! i = ps ! i)"
  using assms
proof (induction js arbitrary: ps st)
  case Nil
  then show ?case by simp
next
  case (Cons j js)
  from Cons.prems obtain p' st1 where b: "body j (ps ! j) st = Some (p', st1)"
    and r: "particle_loop body js (ps[j := p']) st1 = Some (ps', st')"
    by (auto split: option.splits)
  from Cons.IH[OF r] show ?case by simp
qed

lemma particle_loop_agree:
  assumes "particle_loop body js ps1 st = Some (ps1', st')"
    and "\<forall>i\<in>set js. ps2 ! i = ps1 ! i" and "\<forall>i\<in>set js. i < length ps1"
    and "length ps2 = length ps1"
  shows "\<exists>ps2'. particle_loop body js ps2 st = Some (ps2', st') \<and>
           (\<forall>i\<in>set js. ps2' ! i = ps1' ! i)"
  using assms
proof (induction js arbitrary: ps1 ps2 st)
  case Nil
  then show ?case by simp
next
  case (Cons j js)
  from Cons.prems(1) obtain p' st1 where b: "body j (ps1 ! j) st = Some (p', st1)"
    and r: "particle_loop body js (ps1[j := p']) st1 = Some (ps1', st')"
    by (auto split: option.splits)
  have j: "ps2 ! j = ps1 ! j" "j < length ps1" using Cons.prems(2,3) by simp_all
  have ag: "\<forall>i\<in>set js. (ps2[j := p']) ! i = (ps1[j := p']) ! i"
    using Cons.prems(2,3,4) by (simp add: nth_list_update)
  have ln: "\<forall>i\<in>set js. i < length (ps1[j := p'])" using Cons.prems(3) by simp
  have le: "length (ps2[j := p']) = length (ps1[j := p'])" using Cons.prems(4) by simp
  from Cons.IH[OF r ag ln le] obtain ps2'
    where r2: "particle_loop body js (ps2[j := p']) st1 = Some (ps2', st')"
      and a2: "\<forall>i\<in>set js. ps2' ! i = ps1' ! i" by blast
  have "ps2' ! j = ps1' ! j"
  proof (cases "j \<in> set js")
    case True
    then show ?thesis using a2 by simp
  next
    case False
    from particle_loop_rest[OF r] False have "ps1' ! j = (ps1[j := p']) ! j" by simp
    moreover from particle_loop_rest[OF r2] False have "ps2' ! j = (ps2[j := p']) ! j" by simp
    ultimately show ?thesis using j Cons.prems(4) by simp
  qed
  then show ?case using b r2 a2 j by simp
qed

lemma render_rain_inactive:
  assumes len: "length particles = RGUI_NUM_PARTICLES" "length particles2 = RGUI_NUM_PARTICLES"
    and w3: "fb_width div 3 \<noteq> 0"
    and agree: "\<forall>i<unat (rain_num_drops fb_width). particles2 ! i = particles ! i"
  shows "\<exists>ps' ps2' st'.
           render_rain rand color speed fb_width fb_height particles st = Some (ps', st') \<and>
           render_rain rand color speed fb_width fb_height particles2 st = Some (ps2', st') \<and>
           (\<forall>i. unat (rain_num_drops fb_width) \<le> i \<longrightarrow>
                ps' ! i = particles ! i \<and> ps2' ! i = particles2 ! i) \<and>
           (\<forall>i<unat (rain_num_drops fb_width). ps2' ! i = ps' ! i)"
proof -
  define n where "n = unat (rain_num_drops fb_width)"
  let ?body = "\<lambda>i::nat. rain_particle rand color speed fb_width fb_height"
  have n256: "n \<le> 256" unfolding n_def rain_num_drops_formula by simp
  have idx: "\<forall>i\<in>set [0..<n]. i < length particles"
    using n256 len(1) by (simp add: RGUI_NUM_PARTICLES_def)
  have body: "\<exists>p' st'. ?body i p st = Some (p', st') \<and> True" for i p st
    using rain_particle_some[OF w3, of rand color speed fb_height p st] by simp
  from particle_loop_invariant[of "[0..<n]" ?body "\<lambda>_ _. True" particles st, OF body _ idx]
  obtain ps' st' where r1: "particle_loop ?body [0..<n] particles st = Some (ps', st')"
    and u1: "\<forall>i. i \<notin> set [0..<n] \<longrightarrow> ps' ! i = particles ! i" by auto
  have ag: "\<forall>i\<in>set [0..<n]. particles2 ! i = particles ! i" using agree by (simp add: n_def)
  from particle_loop_agree[OF r1 ag idx] len
  obtain ps2' where r2: "particle_loop ?body [0..<n] particles2 st = Some (ps2', st')"
    and a2: "\<forall>i\<in>set [0..<n]. ps2' ! i = ps' ! i" by auto
  from particle_loop_rest[OF r2]
  have u2: "\<forall>i. i \<notin> set [0..<n] \<longrightarrow> ps2' ! i = particles2 ! i" by simp
  show ?thesis
    unfolding render_rain_def n_def[symmetric]
    using r1 r2 u1 u2 a2 by (intro exI[of _ ps'] exI[of _ ps2'] exI[of _ st']) simp
qed

lemma particle_loop_trace:
  assumes body: "\<And>i p st. i \<in> set js \<Longrightarrow> \<exists>p' st'. body i p st = Some (p', st')"
    and "distinct js" and "\<forall>i\<in>set js. i < length ps"
  shows "\<exists>ps' sts. particle_loop body js ps st = Some (ps', sts ! length js) \<and>
           length sts = Suc (length js) \<and> sts ! 0 = st \<and>
           (\<forall>m<length js. body (js ! m) (ps ! (js ! m)) (sts ! m) =
                             Some (ps' ! (js ! m), sts ! Suc m))"
  using assms
proof (induction js arbitrary: ps st)
  case Nil
  have "particle_loop body [] ps st = Some (ps, [st] ! length ([] :: nat list))" by simp
  then show ?case by (intro exI[of _ ps] exI[of _ "[st]"]) simp
next
  case (Cons j js)
  from Cons.prems(1)[of j "ps ! j" st] obtain p' st1
    where b: "body j (ps ! j) st = Some (p', st1)" by auto
  have jn: "j \<notin> set js" and dj: "distinct js" using Cons.prems(2) by simp_all
  have jl: "j < length ps" using Cons.prems(3) by simp
  have len: "\<forall>i\<in>set js. i < length (ps[j := p'])" using Cons.prems(3) by simp
  have body': "\<And>i p st. i \<in> set js \<Longrightarrow> \<exists>p' st'. body i p st = Some (p', st')"
    using Cons.prems(1) by simp
  from Cons.IH[OF body' dj len, of st1] obtain ps' sts
    where r: "particle_loop body js (ps[j := p']) st1 = Some (ps', sts ! length js)"
      and l: "length sts = Suc (length js)" and z: "sts ! 0 = st1"
      and t: "\<forall>m<length js. body (js ! m) (ps[j := p'] ! (js ! m)) (sts ! m) =
                             Some (ps' ! (js ! m), sts ! Suc m)"
    by blast
  have rest: "ps' ! j = ps[j := p'] ! j"
    using particle_loop_rest[OF r] jn by simp
  then have pj: "ps' ! j = p'" using jl by simp
  have step: "body ((j # js) ! m) (ps ! ((j # js) ! m)) ((st # sts) ! m) =
                Some (ps' ! ((j # js) ! m), (st # sts) ! Suc m)" if m: "m < length (j # js)" for m
  proof (cases m)
    case 0
    then show ?thesis using b pj z by simp
  next
    case (Suc n)
    then have n: "n < length js" using m by simp
    then have "js ! n \<noteq> j" using jn by (metis nth_mem)
    then have e: "ps[j := p'] ! (js ! n) = ps ! (js ! n)" by simp
    from t n have "body (js ! n) (ps[j := p'] ! (js ! n)) (sts ! n) =
                     Some (ps' ! (js ! n), sts ! Suc n)" by blast
    then show ?thesis unfolding Suc e by simp
  qed
  have "particle_loop body (j # js) ps st = Some (ps', (st # sts) ! length (j # js))"
    using b r by simp
  moreover have "length (st # sts) = Suc (length (j # js))" using l by simp
  moreover have "(st # sts) ! 0 = st" by simp
  ultimately show ?case using step by blast
qed

lemma rain_particle_effect:
  assumes "fb_width div 3 \<noteq> 0"
  shows "\<exists>p' k'. rain_particle rand color speed fb_width fb_height p (k, data) =
           Some (p', (k', snd (rgui_draw_particle data fb_width fb_height (to_int (p_a p))
                                 (to_int (p_b p)) 2 (to_unsigned (p_c p)) color))) \<and>
         (if fst (rgui_draw_particle data fb_width fb_height (to_int (p_a p))
                    (to_int (p_b p)) 2 (to_unsigned (p_c p)) color)
          then p' = p\<lparr>p_b := f32 (p_b p + f32 (p_d p * speed))\<rparr> \<and> k' = k
          else p_b p' = 0 \<and> k' = k + 3)"
  using assms unfolding rain_particle_def Let_def by (simp add: case_prod_beta)

lemma render_rain_active:
  assumes len: "length particles = RGUI_NUM_PARTICLES"
    and w3: "fb_width div 3 \<noteq> 0"
  shows "\<exists>ps' sts.
           render_rain rand color speed fb_width fb_height particles st =
             Some (ps', sts ! unat (rain_num_drops fb_width)) \<and>
           length sts = Suc (unat (rain_num_drops fb_width)) \<and> sts ! 0 = st \<and>
           (\<forall>i<unat (rain_num_drops fb_width).
              snd (sts ! Suc i) =
                snd (rgui_draw_particle (snd (sts ! i)) fb_width fb_height
                       (to_int (p_a (particles ! i))) (to_int (p_b (particles ! i))) 2
                       (to_unsigned (p_c (particles ! i))) color) \<and>
              (if fst (rgui_draw_particle (snd (sts ! i)) fb_width fb_height
                         (to_int (p_a (particles ! i))) (to_int (p_b (particles ! i))) 2
                         (to_unsigned (p_c (particles ! i))) color)
               then ps' ! i = (particles ! i)
                      \<lparr>p_b := f32 (p_b (particles ! i) + f32 (p_d (particles ! i) * speed))\<rparr> \<and>
                    fst (sts ! Suc i) = fst (sts ! i)
               else p_b (ps' ! i) = 0 \<and> fst (sts ! Suc i) = fst (sts ! i) + 3))"
proof -
  define n where "n = unat (rain_num_drops fb_width)"
  let ?body = "\<lambda>i :: nat. rain_particle rand color speed fb_width fb_height"
  have n: "n \<le> RGUI_NUM_PARTICLES"
    unfolding n_def rain_num_drops_formula RGUI_NUM_PARTICLES_def by simp
  have body: "\<exists>p' st'. ?body i p st = Some (p', st')" for i p st
    using rain_particle_some[OF w3] by blast
  have idx: "\<forall>i\<in>set [0..<n]. i < length particles" using len n by simp
  from particle_loop_trace[of "[0..<n]" ?body particles st, OF body _ idx]
  obtain ps' sts where r: "particle_loop ?body [0..<n] particles st = Some (ps', sts ! n)"
    and l: "length sts = Suc n" and z: "sts ! 0 = st"
    and t: "\<forall>m<n. rain_particle rand color speed fb_width fb_height (particles ! m) (sts ! m) =
                    Some (ps' ! m, sts ! Suc m)"
    by auto
  have step: "snd (sts ! Suc i) =
                snd (rgui_draw_particle (snd (sts ! i)) fb_width fb_height
                       (to_int (p_a (particles ! i))) (to_int (p_b (particles ! i))) 2
                       (to_unsigned (p_c (particles ! i))) color) \<and>
              (if fst (rgui_draw_particle (snd (sts ! i)) fb_width fb_height
                         (to_int (p_a (particles ! i))) (to_int (p_b (particles ! i))) 2
                         (to_unsigned (p_c (particles ! i))) color)
               then ps' ! i = (particles ! i)
                      \<lparr>p_b := f32 (p_b (particles ! i) + f32 (p_d (particles ! i) * speed))\<rparr> \<and>
                    fst (sts ! Suc i) = fst (sts ! i)
               else p_b (ps' ! i) = 0 \<and> fst (sts ! Suc i) = fst (sts ! i) + 3)"
    if i: "i < n" for i
  proof -
    obtain k data where s: "sts ! i = (k, data)" by (cases "sts ! i")
    from t i have e: "rain_particle rand color speed fb_width fb_height (particles ! i) (k, data) =
                    Some (ps' ! i, sts ! Suc i)" unfolding s[symmetric] by blast
    from rain_particle_effect[OF w3, of rand color speed fb_height "particles ! i" k data]
    show ?thesis unfolding e s by (auto split: if_splits)
  qed
  show ?thesis
    unfolding render_rain_def n_def[symmetric] using r l z step by blast
qed

lemma f32_one [simp]: "f32 1 = 1"
  using f32_nat[of 1] by simp

text \<open>
  Claim C9. For every buffer width the number of active rain drops, computed in
  \<^verbatim>\<open>float\<close> by the source, equals
  \<open>min 256 (trunc (0.85 * (fb_width / 426) * 256))\<close> computed exactly; a width of 426
  gives 217 drops and a width of 213 gives 108. A call returns, and it passes through
  the states \<open>sts ! 0, \<dots>, sts ! count\<close> (the number of values of
  \<^verbatim>\<open>rand()\<close> consumed and the frame buffer), one step per index below the count,
  in order: the drop of index \<open>i\<close> is drawn, as it was before the call, onto the frame
  buffer left by the drops before it, and it is updated: if it was on screen its \<open>b\<close>
  is advanced by \<open>d * global_speed_factor\<close> and no value of \<^verbatim>\<open>rand()\<close> is
  consumed, otherwise it is respawned at \<open>b = 0\<close> from three values of
  \<^verbatim>\<open>rand()\<close>. Particles at pool indices from the count on are not updated, and
  are not drawn: a pool that differs from the first one at such indices only goes through
  the same states and yields the same particles below the count.
\<close>

theorem rain_drop_count:
  "unat (rain_num_drops fb_width) =
     min 256 (nat \<lfloor>(85 / 100) * (of_nat (unat fb_width) / 426) * 256 :: rat\<rfloor>) \<and>
   rain_num_drops 426 = 217 \<and> rain_num_drops 213 = 108 \<and>
   (length particles = RGUI_NUM_PARTICLES \<and> length particles2 = RGUI_NUM_PARTICLES \<and>
    fb_width div 3 \<noteq> 0 \<and>
    (\<forall>i<unat (rain_num_drops fb_width). particles2 ! i = particles ! i) \<longrightarrow>
    (\<exists>ps' ps2' sts.
       render_rain rand particle_color global_speed_factor fb_width fb_height particles st =
         Some (ps', sts ! unat (rain_num_drops fb_width)) \<and>
       render_rain rand particle_color global_speed_factor fb_width fb_height particles2 st =
         Some (ps2', sts ! unat (rain_num_drops fb_width)) \<and>
       length sts = Suc (unat (rain_num_drops fb_width)) \<and> sts ! 0 = st \<and>
       (\<forall>i<unat (rain_num_drops fb_width).
          snd (sts ! Suc i) =
            snd (rgui_draw_particle (snd (sts ! i)) fb_width fb_height
                   (to_int (p_a (particles ! i))) (to_int (p_b (particles ! i))) 2
                   (to_unsigned (p_c (particles ! i))) particle_color) \<and>
          (if fst (rgui_draw_particle (snd (sts ! i)) fb_width fb_height
                     (to_int (p_a (particles ! i))) (to_int (p_b (particles ! i))) 2
                     (to_unsigned (p_c (particles ! i))) particle_color)
           then ps' ! i = (particles ! i)
                  \<lparr>p_b := f32 (p_b (particles ! i) +
                                f32 (p_d (particles ! i) * global_speed_factor))\<rparr> \<and>
                fst (sts ! Suc i) = fst (sts ! i)
           else p_b (ps' ! i) = 0 \<and> fst (sts ! Suc i) = fst (sts ! i) + 3)) \<and>
       (\<forall>i. unat (rain_num_drops fb_width) \<le> i \<longrightarrow>
            ps' ! i = particles ! i \<and> ps2' ! i = particles2 ! i) \<and>
       (\<forall>i<unat (rain_num_drops fb_width). ps2' ! i = ps' ! i)))"
proof (intro conjI impI)
  show "unat (rain_num_drops fb_width) =
     min 256 (nat \<lfloor>(85 / 100) * (of_nat (unat fb_width) / 426) * 256 :: rat\<rfloor>)"
    by (rule rain_num_drops_formula)
  show "rain_num_drops 426 = 217" by (rule rain_num_drops_426)
  show "rain_num_drops 213 = 108" by (rule rain_num_drops_213)
next
  assume a: "length particles = RGUI_NUM_PARTICLES \<and> length particles2 = RGUI_NUM_PARTICLES \<and>
    fb_width div 3 \<noteq> 0 \<and>
    (\<forall>i<unat (rain_num_drops fb_width). particles2 ! i = particles ! i)"
  then have len: "length particles = RGUI_NUM_PARTICLES" "length particles2 = RGUI_NUM_PARTICLES"
    and w3: "fb_width div 3 \<noteq> 0"
    and agree: "\<forall>i<unat (rain_num_drops fb_width). particles2 ! i = particles ! i"
    by simp_all
  from render_rain_inactive[OF len w3 agree, of rand particle_color global_speed_factor
      fb_height st]
  obtain ps' ps2' st' where
    r1: "render_rain rand particle_color global_speed_factor fb_width fb_height particles st =
           Some (ps', st')"
    and r2: "render_rain rand particle_color global_speed_factor fb_width fb_height particles2 st =
           Some (ps2', st')"
    and u: "\<forall>i. unat (rain_num_drops fb_width) \<le> i \<longrightarrow>
            ps' ! i = particles ! i \<and> ps2' ! i = particles2 ! i"
    and v: "\<forall>i<unat (rain_num_drops fb_width). ps2' ! i = ps' ! i"
    by blast
  from render_rain_active[OF len(1) w3, of rand particle_color global_speed_factor fb_height st]
  obtain ps'' sts where
    r3: "render_rain rand particle_color global_speed_factor fb_width fb_height particles st =
           Some (ps'', sts ! unat (rain_num_drops fb_width))"
    and l: "length sts = Suc (unat (rain_num_drops fb_width))" and z: "sts ! 0 = st"
    and t: "\<forall>i<unat (rain_num_drops fb_width).
          snd (sts ! Suc i) =
            snd (rgui_draw_particle (snd (sts ! i)) fb_width fb_height
                   (to_int (p_a (particles ! i))) (to_int (p_b (particles ! i))) 2
                   (to_unsigned (p_c (particles ! i))) particle_color) \<and>
          (if fst (rgui_draw_particle (snd (sts ! i)) fb_width fb_height
                     (to_int (p_a (particles ! i))) (to_int (p_b (particles ! i))) 2
                     (to_unsigned (p_c (particles ! i))) particle_color)
           then ps'' ! i = (particles ! i)
                  \<lparr>p_b := f32 (p_b (particles ! i) +
                                f32 (p_d (particles ! i) * global_speed_factor))\<rparr> \<and>
                fst (sts ! Suc i) = fst (sts ! i)
           else p_b (ps'' ! i) = 0 \<and> fst (sts ! Suc i) = fst (sts ! i) + 3)"
    by blast
  from r1 r3 have e: "ps'' = ps'" "st' = sts ! unat (rain_num_drops fb_width)" by simp_all
  show "\<exists>ps' ps2' sts.
       render_rain rand particle_color global_speed_factor fb_width fb_height particles st =
         Some (ps', sts ! unat (rain_num_drops fb_width)) \<and>
       render_rain rand particle_color global_speed_factor fb_width fb_height particles2 st =
         Some (ps2', sts ! unat (rain_num_drops fb_width)) \<and>
       length sts = Suc (unat (rain_num_drops fb_width)) \<and> sts ! 0 = st \<and>
       (\<forall>i<unat (rain_num_drops fb_width).
          snd (sts ! Suc i) =
            snd (rgui_draw_particle (snd (sts ! i)) fb_width fb_height
                   (to_int (p_a (particles ! i))) (to_int (p_b (particles ! i))) 2
                   (to_unsigned (p_c (particles ! i))) particle_color) \<and>
          (if fst (rgui_draw_particle (snd (sts ! i)) fb_width fb_height
                     (to_int (p_a (particles ! i))) (to_int (p_b (particles ! i))) 2
                     (to_unsigned (p_c (particles ! i))) particle_color)
           then ps' ! i = (particles ! i)
                  \<lparr>p_b := f32 (p_b (particles ! i) +
                                f32 (p_d (particles ! i) * global_speed_factor))\<rparr> \<and>
                fst (sts ! Suc i) = fst (sts ! i)
           else p_b (ps' ! i) = 0 \<and> fst (sts ! Suc i) = fst (sts ! i) + 3)) \<and>
       (\<forall>i. unat (rain_num_drops fb_width) \<le> i \<longrightarrow>
            ps' ! i = particles ! i \<and> ps2' ! i = particles2 ! i) \<and>
       (\<forall>i<unat (rain_num_drops fb_width). ps2' ! i = ps' ! i)"
    using r3 r2 l z t u v unfolding e by blast
qed

theorem rain_drop_count_witness:
  "length (replicate 256 \<lparr>p_a = 3, p_b = 0, p_c = 2, p_d = 1\<rparr>) = RGUI_NUM_PARTICLES \<and>
   (426 :: 32 word) div 3 \<noteq> 0 \<and>
   (\<exists>ps' ps2' st'.
      render_rain id 7 1 426 240 (replicate 256 \<lparr>p_a = 3, p_b = 0, p_c = 2, p_d = 1\<rparr>)
        (0, fb_init) = Some (ps', st') \<and>
      render_rain id 7 1 426 240
        ((replicate 256 \<lparr>p_a = 3, p_b = 0, p_c = 2, p_d = 1\<rparr>)
           [217 := \<lparr>p_a = 9, p_b = 9, p_c = 9, p_d = 9\<rparr>])
        (0, fb_init) = Some (ps2', st') \<and>
      ps' ! 0 = \<lparr>p_a = 3, p_b = 1, p_c = 2, p_d = 1\<rparr> \<and>
      ps' ! 217 = \<lparr>p_a = 3, p_b = 0, p_c = 2, p_d = 1\<rparr> \<and>
      ps2' ! 217 = \<lparr>p_a = 9, p_b = 9, p_c = 9, p_d = 9\<rparr> \<and>
      ps2' ! 216 = ps' ! 216)"
proof -
  let ?p = "\<lparr>p_a = 3, p_b = 0, p_c = 2, p_d = 1\<rparr>"
  let ?q = "\<lparr>p_a = 9, p_b = 9, p_c = 9, p_d = 9\<rparr>"
  have n: "unat (rain_num_drops 426) = 217" unfolding rain_num_drops_426 by simp
  have len: "length (replicate 256 ?p) = RGUI_NUM_PARTICLES"
    "length ((replicate 256 ?p)[217 := ?q]) = RGUI_NUM_PARTICLES"
    by (simp_all add: RGUI_NUM_PARTICLES_def)
  have w3: "(426 :: 32 word) div 3 \<noteq> 0" by simp
  have agree: "\<forall>i<unat (rain_num_drops 426). (replicate 256 ?p)[217 := ?q] ! i = replicate 256 ?p ! i"
    unfolding n by simp
  have ti: "to_int 3 = 3" "to_int 0 = 0" "to_unsigned 2 = 2"
    by (simp_all add: to_int_def to_unsigned_def c_trunc_def)
  have on: "fst (rgui_draw_particle fb_init 426 240 3 0 2 2 7)"
    by (simp add: rgui_draw_particle_def Let_def)
  from rain_drop_count[of 426 "replicate 256 ?p" "(replicate 256 ?p)[217 := ?q]" id 7 1 240
      "(0, fb_init)"] len w3 agree
  obtain ps' ps2' sts where r: "render_rain id 7 1 426 240 (replicate 256 ?p) (0, fb_init) =
        Some (ps', sts ! unat (rain_num_drops 426))"
      "render_rain id 7 1 426 240 ((replicate 256 ?p)[217 := ?q]) (0, fb_init) =
        Some (ps2', sts ! unat (rain_num_drops 426))"
    and z: "sts ! 0 = (0, fb_init)"
    and t: "\<forall>i<unat (rain_num_drops 426).
          snd (sts ! Suc i) =
            snd (rgui_draw_particle (snd (sts ! i)) 426 240
                   (to_int (p_a (replicate 256 ?p ! i))) (to_int (p_b (replicate 256 ?p ! i))) 2
                   (to_unsigned (p_c (replicate 256 ?p ! i))) 7) \<and>
          (if fst (rgui_draw_particle (snd (sts ! i)) 426 240
                     (to_int (p_a (replicate 256 ?p ! i))) (to_int (p_b (replicate 256 ?p ! i))) 2
                     (to_unsigned (p_c (replicate 256 ?p ! i))) 7)
           then ps' ! i = (replicate 256 ?p ! i)
                  \<lparr>p_b := f32 (p_b (replicate 256 ?p ! i) +
                                f32 (p_d (replicate 256 ?p ! i) * 1))\<rparr> \<and>
                fst (sts ! Suc i) = fst (sts ! i)
           else p_b (ps' ! i) = 0 \<and> fst (sts ! Suc i) = fst (sts ! i) + 3)"
    and u: "\<forall>i. unat (rain_num_drops 426) \<le> i \<longrightarrow>
            ps' ! i = replicate 256 ?p ! i \<and> ps2' ! i = (replicate 256 ?p)[217 := ?q] ! i"
    and v: "\<forall>i<unat (rain_num_drops 426). ps2' ! i = ps' ! i"
    by blast
  have "(0 :: nat) < unat (rain_num_drops 426)" unfolding n by simp
  with t have "if fst (rgui_draw_particle (snd (sts ! 0)) 426 240
                     (to_int (p_a (replicate 256 ?p ! 0))) (to_int (p_b (replicate 256 ?p ! 0))) 2
                     (to_unsigned (p_c (replicate 256 ?p ! 0))) 7)
           then ps' ! 0 = (replicate 256 ?p ! 0)
                  \<lparr>p_b := f32 (p_b (replicate 256 ?p ! 0) +
                                f32 (p_d (replicate 256 ?p ! 0) * 1))\<rparr> \<and>
                fst (sts ! Suc 0) = fst (sts ! 0)
           else p_b (ps' ! 0) = 0 \<and> fst (sts ! Suc 0) = fst (sts ! 0) + 3"
    by blast
  then have first: "ps' ! 0 = \<lparr>p_a = 3, p_b = 1, p_c = 2, p_d = 1\<rparr>"
    unfolding z using on by (simp add: ti)
  from u have "ps' ! 217 = ?p \<and> ps2' ! 217 = ?q" unfolding n by simp
  moreover from v have "ps2' ! 216 = ps' ! 216" unfolding n by simp
  ultimately show ?thesis using r len(1) w3 first by blast
qed

subsection \<open>Snow: position\<close>

lemma c_trunc_near: "of_int (c_trunc v) - 1 < v \<and> v < of_int (c_trunc v) + 1"
  unfolding c_trunc_def by (simp; linarith)

lemma c_trunc_abs:
  assumes "- of_int n \<le> v" "v \<le> of_int n"
  shows "- n \<le> c_trunc v \<and> c_trunc v \<le> n"
proof (cases "0 \<le> v")
  case True
  then have "c_trunc v = \<lfloor>v\<rfloor>" by (simp add: c_trunc_def)
  moreover have "0 \<le> \<lfloor>v\<rfloor>" using True by simp
  moreover have "\<lfloor>v\<rfloor> \<le> n" using assms(2) by (simp add: floor_le_iff; linarith)
  ultimately show ?thesis by linarith
next
  case False
  then have "c_trunc v = \<lceil>v\<rceil>" by (simp add: c_trunc_def)
  moreover have "\<lceil>v\<rceil> \<le> 0" using False by (simp add: ceiling_le_iff)
  moreover have "- n \<le> \<lceil>v\<rceil>" using assms(1) by (simp add: le_ceiling_iff; linarith)
  ultimately show ?thesis by linarith
qed

lemma c_fmod_bound:
  assumes "0 < y"
  shows "\<exists>r. c_fmod x y = Some r \<and> - y < r \<and> r < y"
proof -
  define q where "q = c_trunc (x / y)"
  have n: "of_int q - 1 < x / y \<and> x / y < of_int q + 1" unfolding q_def by (rule c_trunc_near)
  then have "(of_int q - 1) * y < x" "x < (of_int q + 1) * y"
    using assms by (simp_all add: pos_less_divide_eq pos_divide_less_eq)
  then have "- y < x - y * of_int q" "x - y * of_int q < y"
    by (simp_all add: algebra_simps)
  then show ?thesis using assms unfolding c_fmod_def q_def by simp
qed

lemma f32_within:
  fixes D :: nat
  assumes "D < 2 ^ 24" "- of_nat D \<le> v" "v \<le> of_nat D"
  shows "- of_nat D \<le> f32 v \<and> f32 v \<le> of_nat D"
proof -
  have "\<bar>v\<bar> \<le> of_nat D" using assms(2,3) by linarith
  moreover have "(of_nat D :: rat) < 2 ^ 24" using assms(1)
    by (metis of_nat_less_iff of_nat_numeral of_nat_power)
  ultimately have b: "\<bar>v\<bar> < 2 ^ 24" by linarith
  have "of_int (- int D) \<le> v" "v \<le> of_int (int D)" using assms(2,3) by simp_all
  then have "of_int (- int D) \<le> f32 v" "f32 v \<le> of_int (int D)"
    unfolding f32_def using b by (intro fl_round_ge_int fl_round_le_int; simp)+
  then show ?thesis by simp
qed

lemma sint_to_int:
  assumes "- (2 ^ 31) \<le> c_trunc v" "c_trunc v < 2 ^ 31"
  shows "sint (to_int v) = c_trunc v"
proof -
  have "sint (to_int v) = signed_take_bit 31 (c_trunc v)"
    unfolding to_int_def by (simp only: signed_of_int) simp
  also have "\<dots> = c_trunc v" using assms by (intro signed_take_bit_int_eq_self) simp_all
  finally show ?thesis .
qed

lemma snow_particle_size_cases:
  "snow_particle_size effect i = 1 \<or> snow_particle_size effect i = 2 \<or>
   snow_particle_size effect i = 3"
  by (simp add: snow_particle_size_def)

lemma snow_coordinate:
  fixes D :: nat and sz :: int and v :: rat
  assumes D: "D < 2 ^ 24" and v: "- of_nat D \<le> v" "v \<le> of_nat D" and sz: "0 < sz"
    and vis: "vis \<Longrightarrow> \<exists>i. i < D \<and> c_trunc v \<le> int i \<and> int i < c_trunc v + sz"
  shows "- of_int sz < (if \<not> vis \<and> v < 0 then f32 (v + f32 (of_nat D)) else v) \<and>
         (if \<not> vis \<and> v < 0 then f32 (v + f32 (of_nat D)) else v) \<le> of_nat D"
proof (cases vis)
  case True
  from vis[OF True] obtain i where i: "i < D" "c_trunc v \<le> int i" "int i < c_trunc v + sz" by blast
  have t: "c_trunc v + 1 \<le> int D" "- sz + 1 \<le> c_trunc v" using i by linarith+
  have "(of_int (c_trunc v + 1) :: rat) \<le> of_int (int D)"
    "(of_int (- sz + 1) :: rat) \<le> of_int (c_trunc v)"
    using t by (simp_all only: of_int_le_iff)
  then have "(of_int (c_trunc v) :: rat) + 1 \<le> of_nat D"
    "- of_int sz + 1 \<le> (of_int (c_trunc v) :: rat)"
    by simp_all
  then have "v < of_nat D" "- of_int sz < v" using c_trunc_near[of v] by linarith+
  then show ?thesis using True by simp
next
  case False
  have szr: "(0 :: rat) < of_int sz" using sz by simp
  show ?thesis
  proof (cases "v < 0")
    case True
    have fD: "f32 (of_nat D) = of_nat D" using D by (rule f32_nat)
    have "- of_nat D \<le> v + of_nat D" "v + of_nat D \<le> of_nat D" using v True by linarith+
    from f32_within[OF D this] have up: "f32 (v + of_nat D) \<le> of_nat D" by simp
    have "\<bar>v + of_nat D\<bar> \<le> of_nat D" using v True by linarith
    moreover have "(of_nat D :: rat) < 2 ^ 24" using D
      by (metis of_nat_less_iff of_nat_numeral of_nat_power)
    ultimately have "\<bar>v + of_nat D\<bar> < 2 ^ 24" by linarith
    moreover have "of_int 0 \<le> v + of_nat D" using v by simp
    ultimately have "of_int 0 \<le> f32 (v + of_nat D)"
      unfolding f32_def by (rule fl_round_ge_int)
    then show ?thesis using False True up szr by (simp add: fD; linarith)
  next
    case nn: False
    then show ?thesis using False v szr by (simp; linarith)
  qed
qed

lemma snow_particle_position:
  assumes ok: "frame_buf_ok fb_width fb_height"
    and dims: "fb_width \<noteq> 0" "fb_height \<noteq> 0"
    and hs: "unat fb_height < 2 ^ 24"
  shows "\<exists>p' fb'. snow_particle effect color speed fb_width fb_height i r1 r2 p fb = Some (p', fb') \<and>
           - of_unsigned (snow_particle_size effect i) < p_a p' \<and>
           p_a p' \<le> of_unsigned fb_width \<and>
           - of_unsigned (snow_particle_size effect i) < p_b p' \<and>
           p_b p' \<le> of_unsigned fb_height"
proof -
  define W where "W = unat fb_width"
  define H where "H = unat fb_height"
  have W: "0 < W" "W < 2 ^ 24" "W \<le> 426" and H: "0 < H" "H < 2 ^ 24"
    using ok dims hs unfolding W_def H_def frame_buf_ok_def RGUI_MAX_FB_WIDTH_def
    by (simp_all add: unat_gt_0)
  have uw: "of_unsigned fb_width = of_nat W" and uh: "of_unsigned fb_height = of_nat H"
    unfolding of_unsigned_def W_def H_def by simp_all
  have Wpos: "(0 :: rat) < of_nat W" and Hpos: "(0 :: rat) < of_nat H" using W H by simp_all
  obtain ra where ra: "c_fmod (f32 (p_a p + f32 (speed * snow_clamp_c (f32 (p_c p +
        f32 (f32 (of_int (int (r1 mod 16) - 9)) * f32 (1 / 100))))))) (of_nat W) = Some ra"
      "- of_nat W < ra" "ra < of_nat W"
    using c_fmod_bound[OF Wpos] by blast
  obtain rb where rb: "c_fmod (f32 (p_b p + f32 (speed * snow_clamp_d (f32 (p_d p +
        f32 (f32 (of_int (int (r2 mod 16) - 7)) * f32 (1 / 100))))))) (of_nat H) = Some rb"
      "- of_nat H < rb" "rb < of_nat H"
    using c_fmod_bound[OF Hpos] by blast
  define a1 where "a1 = f32 ra"
  define b1 where "b1 = f32 rb"
  have a1: "- of_nat W \<le> a1" "a1 \<le> of_nat W"
    using f32_within[OF W(2), of ra] ra(2,3) unfolding a1_def by simp_all
  have b1: "- of_nat H \<le> b1" "b1 \<le> of_nat H"
    using f32_within[OF H(2), of rb] rb(2,3) unfolding b1_def by simp_all
  define sz where "sz = snow_particle_size effect i"
  have sz: "0 < uint sz" "uint sz \<le> 3"
    using snow_particle_size_cases[of effect i] unfolding sz_def by auto
  define x where "x = to_int a1"
  define y where "y = to_int b1"
  have ta: "- int W \<le> c_trunc a1 \<and> c_trunc a1 \<le> int W"
    using c_trunc_abs[of "int W" a1] a1 by simp
  have tb: "- int H \<le> c_trunc b1 \<and> c_trunc b1 \<le> int H"
    using c_trunc_abs[of "int H" b1] b1 by simp
  have Wi: "int W \<le> 426" and Hi: "int H < 2 ^ 24" using W(3) H(2) by simp_all
  have sx: "sint x = c_trunc a1" unfolding x_def using ta Wi by (intro sint_to_int) simp_all
  have sy: "sint y = c_trunc b1" unfolding y_def using tb Hi by (intro sint_to_int) simp_all
  have nx: "sint x + uint sz < 2 ^ 31" using sx ta Wi sz by simp
  have ny: "sint y + uint sz < 2 ^ 31" using sy tb Hi sz by simp
  define dr where "dr = rgui_draw_particle fb fb_width fb_height x y sz sz color"
  have on: "fst dr \<longleftrightarrow>
            (\<exists>i j. i < W \<and> c_trunc a1 \<le> int i \<and> int i < c_trunc a1 + uint sz \<and>
                   j < H \<and> c_trunc b1 \<le> int j \<and> int j < c_trunc b1 + uint sz)"
    using draw_particle_effect[OF ok nx ny, of fb color]
    unfolding dr_def sx sy W_def H_def by blast
  have res: "snow_particle effect color speed fb_width fb_height i r1 r2 p fb =
     Some (\<lparr>p_a = (if \<not> fst dr \<and> a1 < 0 then f32 (a1 + f32 (of_nat W)) else a1),
            p_b = (if \<not> fst dr \<and> b1 < 0 then f32 (b1 + f32 (of_nat H)) else b1),
            p_c = snow_clamp_c (f32 (p_c p +
                    f32 (f32 (of_int (int (r1 mod 16) - 9)) * f32 (1 / 100)))),
            p_d = snow_clamp_d (f32 (p_d p +
                    f32 (f32 (of_int (int (r2 mod 16) - 7)) * f32 (1 / 100))))\<rparr>, snd dr)"
    unfolding snow_particle_def Let_def uw uh ra(1) rb(1) option.case case_prod_beta
      dr_def x_def y_def a1_def b1_def sz_def ..
  have ca: "- of_int (uint sz) <
              (if \<not> fst dr \<and> a1 < 0 then f32 (a1 + f32 (of_nat W)) else a1) \<and>
            (if \<not> fst dr \<and> a1 < 0 then f32 (a1 + f32 (of_nat W)) else a1) \<le> of_nat W"
    by (rule snow_coordinate[OF W(2) a1 sz(1)]) (use on in blast)
  have cb: "- of_int (uint sz) <
              (if \<not> fst dr \<and> b1 < 0 then f32 (b1 + f32 (of_nat H)) else b1) \<and>
            (if \<not> fst dr \<and> b1 < 0 then f32 (b1 + f32 (of_nat H)) else b1) \<le> of_nat H"
    by (rule snow_coordinate[OF H(2) b1 sz(1)]) (use on in blast)
  have us: "of_unsigned (snow_particle_size effect i) = (of_int (uint sz) :: rat)"
    unfolding of_unsigned_def sz_def by simp
  show ?thesis unfolding res us uw uh using ca cb by simp
qed

lemma render_snow_position:
  assumes len: "length particles = RGUI_NUM_PARTICLES"
    and ok: "frame_buf_ok fb_width fb_height"
    and dims: "fb_width \<noteq> 0" "fb_height \<noteq> 0"
    and hs: "unat fb_height < 2 ^ 24"
  shows "\<exists>particles' st'.
           render_snow rand effect color speed fb_width fb_height particles st =
             Some (particles', st') \<and>
           length particles' = RGUI_NUM_PARTICLES \<and>
           (\<forall>i<RGUI_NUM_PARTICLES.
              - of_unsigned (snow_particle_size effect i) < p_a (particles' ! i) \<and>
              p_a (particles' ! i) \<le> of_unsigned fb_width \<and>
              - of_unsigned (snow_particle_size effect i) < p_b (particles' ! i) \<and>
              p_b (particles' ! i) \<le> of_unsigned fb_height)"
proof -
  let ?Q = "\<lambda>(i::nat) p. - of_unsigned (snow_particle_size effect i) < p_a p \<and>
              p_a p \<le> of_unsigned fb_width \<and>
              - of_unsigned (snow_particle_size effect i) < p_b p \<and>
              p_b p \<le> of_unsigned fb_height"
  let ?body = "\<lambda>i particle (k, data).
          map_option (\<lambda>(particle, data). (particle, (k + 2, data)))
            (snow_particle effect color speed fb_width fb_height i
               (rand k) (rand (k + 1)) particle data)"
  have body: "\<exists>p' st'. ?body i p st = Some (p', st') \<and> ?Q i p'" for i p st
  proof -
    obtain k data where st: "st = (k, data)" by (cases st)
    from snow_particle_position[OF ok dims hs, of effect color speed i "rand k" "rand (k + 1)" p data]
    show ?thesis unfolding st by auto
  qed
  have idx: "\<forall>i\<in>set [0..<RGUI_NUM_PARTICLES]. i < length particles" using len by simp
  from particle_loop_invariant[of "[0..<RGUI_NUM_PARTICLES]" ?body ?Q particles st, OF body _ idx]
  obtain ps' st' where r: "particle_loop ?body [0..<RGUI_NUM_PARTICLES] particles st = Some (ps', st')"
    and l: "length ps' = length particles"
    and q: "\<forall>i\<in>set [0..<RGUI_NUM_PARTICLES]. ?Q i (ps' ! i)"
    by auto
  show ?thesis using r l len q unfolding render_snow_def by auto
qed

lemma render_snow_frames_position:
  assumes len: "length particles = RGUI_NUM_PARTICLES"
    and ok: "frame_buf_ok fb_width fb_height"
    and dims: "fb_width \<noteq> 0" "fb_height \<noteq> 0"
    and hs: "unat fb_height < 2 ^ 24"
    and init: "\<forall>i<RGUI_NUM_PARTICLES.
              - of_unsigned (snow_particle_size effect i) < p_a (particles ! i) \<and>
              p_a (particles ! i) \<le> of_unsigned fb_width \<and>
              - of_unsigned (snow_particle_size effect i) < p_b (particles ! i) \<and>
              p_b (particles ! i) \<le> of_unsigned fb_height"
  shows "\<exists>particles' st'.
           render_snow_frames rand effect color fb_width fb_height speeds particles st =
             Some (particles', st') \<and>
           length particles' = RGUI_NUM_PARTICLES \<and>
           (\<forall>i<RGUI_NUM_PARTICLES.
              - of_unsigned (snow_particle_size effect i) < p_a (particles' ! i) \<and>
              p_a (particles' ! i) \<le> of_unsigned fb_width \<and>
              - of_unsigned (snow_particle_size effect i) < p_b (particles' ! i) \<and>
              p_b (particles' ! i) \<le> of_unsigned fb_height)"
  using len init
proof (induction speeds arbitrary: particles st)
  case Nil
  then show ?case by simp
next
  case (Cons speed speeds)
  from render_snow_position[OF Cons.prems(1) ok dims hs, of rand effect color speed st]
  obtain ps1 st1 where r: "render_snow rand effect color speed fb_width fb_height particles st =
             Some (ps1, st1)"
    and l: "length ps1 = RGUI_NUM_PARTICLES"
    and v: "\<forall>i<RGUI_NUM_PARTICLES.
              - of_unsigned (snow_particle_size effect i) < p_a (ps1 ! i) \<and>
              p_a (ps1 ! i) \<le> of_unsigned fb_width \<and>
              - of_unsigned (snow_particle_size effect i) < p_b (ps1 ! i) \<and>
              p_b (ps1 ! i) \<le> of_unsigned fb_height" by blast
  from Cons.IH[OF l v, of st1] show ?case using r by simp
qed

text \<open>
  Claim C6, amended. For the Snow and SnowAlt effects, on a frame buffer the program can
  allocate (of a height below \<open>2 ^ 24\<close>), after any number \<open>N \<ge> 1\<close> of successive
  calls, whatever the values returned by \<^verbatim>\<open>rand()\<close>, the speed factors and the
  contents of the pool before the first call, every call returns and the position of the
  particle of index \<open>i\<close> satisfies \<open>- size i < a \<le> fb_width\<close> and
  \<open>- size i < b \<le> fb_height\<close>, where \<open>size i\<close> is the side of the square drawn for
  that particle (1 for Snow; 1, 2 or 3 for SnowAlt).
\<close>

theorem snow_position_range:
  assumes "length particles = RGUI_NUM_PARTICLES"
    and "frame_buf_ok fb_width fb_height"
    and "fb_width \<noteq> 0" and "fb_height \<noteq> 0"
    and "unat fb_height < 2 ^ 24"
    and "speeds \<noteq> []"
  shows "\<exists>particles' st'.
           render_snow_frames rand effect particle_color fb_width fb_height speeds particles st =
             Some (particles', st') \<and>
           length particles' = RGUI_NUM_PARTICLES \<and>
           (\<forall>i<RGUI_NUM_PARTICLES.
              - of_unsigned (snow_particle_size effect i) < p_a (particles' ! i) \<and>
              p_a (particles' ! i) \<le> of_unsigned fb_width \<and>
              - of_unsigned (snow_particle_size effect i) < p_b (particles' ! i) \<and>
              p_b (particles' ! i) \<le> of_unsigned fb_height)"
proof -
  from assms(6) obtain speed rest where s: "speeds = speed # rest" by (cases speeds) auto
  from render_snow_position[OF assms(1,2,3,4,5), of rand effect particle_color speed st]
  obtain ps1 st1 where r: "render_snow rand effect particle_color speed fb_width fb_height
             particles st = Some (ps1, st1)"
    and l: "length ps1 = RGUI_NUM_PARTICLES"
    and v: "\<forall>i<RGUI_NUM_PARTICLES.
              - of_unsigned (snow_particle_size effect i) < p_a (ps1 ! i) \<and>
              p_a (ps1 ! i) \<le> of_unsigned fb_width \<and>
              - of_unsigned (snow_particle_size effect i) < p_b (ps1 ! i) \<and>
              p_b (ps1 ! i) \<le> of_unsigned fb_height" by blast
  from render_snow_frames_position[OF l assms(2,3,4,5) v, of rand particle_color rest st1]
  show ?thesis unfolding s using r by simp
qed

lemma frame_buf_ok_256_192: "frame_buf_ok 256 192"
  by (simp add: frame_buf_ok_def RGUI_MAX_FB_WIDTH_def)

theorem snow_position_range_witness:
  "length (replicate 256 \<lparr>p_a = 300, p_b = - 7, p_c = 0, p_d = 0\<rparr>) = RGUI_NUM_PARTICLES \<and>
   frame_buf_ok 256 192 \<and> (256 :: 32 word) \<noteq> 0 \<and> (192 :: 32 word) \<noteq> 0 \<and>
   unat (192 :: 32 word) < 2 ^ 24 \<and> [1 :: rat, 2] \<noteq> [] \<and> 5 < RGUI_NUM_PARTICLES \<and>
   (\<exists>particles' st'.
      render_snow_frames id RGUI_PARTICLE_EFFECT_SNOW_ALT 9 256 192 [1, 2]
        (replicate 256 \<lparr>p_a = 300, p_b = - 7, p_c = 0, p_d = 0\<rparr>) (0, fb_init) =
        Some (particles', st') \<and>
      - 2 < p_a (particles' ! 5) \<and> p_a (particles' ! 5) \<le> 256 \<and>
      - 2 < p_b (particles' ! 5) \<and> p_b (particles' ! 5) \<le> 192)"
proof -
  have len: "length (replicate 256 \<lparr>p_a = 300, p_b = - 7, p_c = 0, p_d = 0\<rparr>) = RGUI_NUM_PARTICLES"
    by (simp add: RGUI_NUM_PARTICLES_def)
  have w: "(256 :: 32 word) \<noteq> 0" and h: "(192 :: 32 word) \<noteq> 0" and s: "[1 :: rat, 2] \<noteq> []"
    and hs: "unat (192 :: 32 word) < 2 ^ 24" and i: "5 < RGUI_NUM_PARTICLES"
    by (simp_all add: RGUI_NUM_PARTICLES_def)
  have sz: "of_unsigned (snow_particle_size RGUI_PARTICLE_EFFECT_SNOW_ALT 5) = 2"
    "of_unsigned 256 = 256" "of_unsigned 192 = 192"
    by (simp_all add: snow_particle_size_def of_unsigned_def)
  from snow_position_range[OF len frame_buf_ok_256_192 w h hs s,
      of id RGUI_PARTICLE_EFFECT_SNOW_ALT 9 "(0, fb_init)"]
  obtain ps' st' where r: "render_snow_frames id RGUI_PARTICLE_EFFECT_SNOW_ALT 9 256 192 [1, 2]
        (replicate 256 \<lparr>p_a = 300, p_b = - 7, p_c = 0, p_d = 0\<rparr>) (0, fb_init) = Some (ps', st')"
    and v: "\<forall>i<RGUI_NUM_PARTICLES.
              - of_unsigned (snow_particle_size RGUI_PARTICLE_EFFECT_SNOW_ALT i) < p_a (ps' ! i) \<and>
              p_a (ps' ! i) \<le> of_unsigned 256 \<and>
              - of_unsigned (snow_particle_size RGUI_PARTICLE_EFFECT_SNOW_ALT i) < p_b (ps' ! i) \<and>
              p_b (ps' ! i) \<le> of_unsigned 192" by blast
  from v i have "- 2 < p_a (ps' ! 5) \<and> p_a (ps' ! 5) \<le> 256 \<and>
      - 2 < p_b (ps' ! 5) \<and> p_b (ps' ! 5) \<le> 192"
    unfolding sz[symmetric] by blast
  with r len frame_buf_ok_256_192 w h hs s i show ?thesis by blast
qed

lemma c_trunc_small: "\<bar>v\<bar> < 1 \<Longrightarrow> c_trunc v = 0"
proof -
  assume a: "\<bar>v\<bar> < 1"
  show ?thesis
  proof (cases "0 \<le> v")
    case True
    then have "\<lfloor>v\<rfloor> = 0" using a by (intro floor_unique) simp_all
    then show ?thesis using True by (simp add: c_trunc_def)
  next
    case False
    then have "\<lceil>v\<rceil> = 0" using a by (intro ceiling_unique) simp_all
    then show ?thesis using False by (simp add: c_trunc_def)
  qed
qed

lemma c_trunc_of_int [simp]: "c_trunc (of_int n) = n"
  by (simp add: c_trunc_def)

lemma snow_particle_step:
  assumes "snow_clamp_c (f32 (p_c p +
             f32 (f32 (of_int (int (r1 mod 16) - 9)) * f32 (1 / 100)))) = c"
    and "snow_clamp_d (f32 (p_d p +
             f32 (f32 (of_int (int (r2 mod 16) - 7)) * f32 (1 / 100)))) = d"
    and "c_fmod (f32 (p_a p + f32 (speed * c))) (of_unsigned fb_width) = Some ra"
    and "c_fmod (f32 (p_b p + f32 (speed * d))) (of_unsigned fb_height) = Some rb"
    and "f32 ra = a" and "f32 rb = b"
    and "fst (rgui_draw_particle fb fb_width fb_height (to_int a) (to_int b)
            (snow_particle_size effect i) (snow_particle_size effect i) color) = on"
  shows "map_option fst (snow_particle effect color speed fb_width fb_height i r1 r2 p fb) =
           Some \<lparr>p_a = (if \<not> on \<and> a < 0 then f32 (a + f32 (of_unsigned fb_width)) else a),
                 p_b = (if \<not> on \<and> b < 0 then f32 (b + f32 (of_unsigned fb_height)) else b),
                 p_c = c, p_d = d\<rparr>"
  unfolding snow_particle_def Let_def assms(1,2) unfolding assms(3,4) option.case
  unfolding assms(5,6) case_prod_beta assms(7) by simp

lemma f32_neg_9: "f32 (of_int (int (0 mod 16) - 9)) = - 9"
  using fl_round_of_int[of "- 9" 24] by (simp add: f32_def)

lemma f32_int_0: "f32 (of_int (int (7 mod 16) - 7)) = 0"
  by simp

lemma f32_drift: "f32 (- 9 * f32 (1 / 100)) = - 12079595 / 2 ^ 27"
proof -
  have "f32 (- 9 * (10737418 / 2 ^ 30)) = - 12079595 / 2 ^ 27"
    unfolding f32_def
    using fl_round_eq[of "-4" "- 9 * (10737418 / 2 ^ 30)" "- 12079595" 24] by simp
  then show ?thesis unfolding f32_hundredth .
qed

lemma f32_drift_exact: "f32 (- 12079595 / 2 ^ 27) = - 12079595 / 2 ^ 27"
  unfolding f32_def using fl_round_exact[of "- 12079595" 24 "- 27"] by simp

lemma f32_100: "f32 100 = 100"
  using f32_nat[of 100] by simp

text \<open>
  Claim C6, as stated, places every position in \<open>[0, fb_width) \<times> [0, fb_height)\<close>
  after each step. \<^verbatim>\<open>fmod\<close> keeps the sign of its first argument, and a negative
  coordinate is moved back by the buffer dimension only when the particle was drawn off
  screen. On a 256 by 192 buffer, a particle at rest at \<open>(0, 100)\<close>, with a speed factor
  of 1 and \<^verbatim>\<open>rand() % 16\<close> equal to 0 and then 7, is given the horizontal velocity
  \<open>- 12079595 / 2 ^ 27\<close> (about \<open>- 0.09\<close>) and moves to that abscissa; it is drawn
  in column 0, so it is on screen and keeps its negative \<open>a\<close>.
\<close>

theorem snow_position_negative_on_screen:
  "map_option fst
     (snow_particle RGUI_PARTICLE_EFFECT_SNOW 7 1 256 192 0 0 7
        \<lparr>p_a = 0, p_b = 100, p_c = 0, p_d = 0\<rparr> fb_init) =
   Some \<lparr>p_a = - 12079595 / 2 ^ 27, p_b = 100, p_c = - 12079595 / 2 ^ 27, p_d = 0\<rparr>"
proof -
  have c: "snow_clamp_c (f32 (p_c \<lparr>p_a = 0, p_b = 100, p_c = 0, p_d = 0\<rparr> +
             f32 (f32 (of_int (int (0 mod 16) - 9)) * f32 (1 / 100)))) = - 12079595 / 2 ^ 27"
    unfolding f32_neg_9 f32_drift
    using f32_drift_exact f32_tenth f32_four_tenths by (simp add: snow_clamp_c_def)
  have d: "snow_clamp_d (f32 (p_d \<lparr>p_a = 0, p_b = 100, p_c = 0, p_d = 0\<rparr> +
             f32 (f32 (of_int (int (7 mod 16) - 7)) * f32 (1 / 100)))) = 0"
    unfolding f32_int_0 using f32_tenth f32_four_tenths by (simp add: snow_clamp_d_def)
  have t: "c_trunc ((- 12079595 / 2 ^ 27) / 256) = 0" by (rule c_trunc_small) simp
  have ra: "c_fmod (f32 (p_a \<lparr>p_a = 0, p_b = 100, p_c = 0, p_d = 0\<rparr> +
              f32 (1 * (- 12079595 / 2 ^ 27)))) (of_unsigned 256) = Some (- 12079595 / 2 ^ 27)"
    using t f32_drift_exact by (simp add: c_fmod_def of_unsigned_def)
  have t2: "c_trunc (100 / 192) = 0" by (rule c_trunc_small) simp
  have rb: "c_fmod (f32 (p_b \<lparr>p_a = 0, p_b = 100, p_c = 0, p_d = 0\<rparr> + f32 (1 * 0)))
              (of_unsigned 192) = Some 100"
    using t2 f32_100 by (simp add: c_fmod_def of_unsigned_def)
  have x: "to_int (- 12079595 / 2 ^ 27) = 0"
    unfolding to_int_def by (subst c_trunc_small) simp_all
  have y: "to_int 100 = 100"
    unfolding to_int_def using c_trunc_of_int[of 100] by simp
  have on: "fst (rgui_draw_particle fb_init 256 192 (to_int (- 12079595 / 2 ^ 27)) (to_int 100)
            (snow_particle_size RGUI_PARTICLE_EFFECT_SNOW 0)
            (snow_particle_size RGUI_PARTICLE_EFFECT_SNOW 0) 7) = True"
    unfolding x y by (simp add: rgui_draw_particle_def snow_particle_size_def Let_def)
  show ?thesis
    using snow_particle_step[OF c d ra rb f32_drift_exact f32_100 on] by simp
qed

lemma f32_pow2: "f32 (- 1 / 2 ^ 6) = - 1 / 2 ^ 6" "f32 (- 1 / 2 ^ 4) = - 1 / 2 ^ 4"
  "f32 (- 1 / 2 ^ 2) = - 1 / 2 ^ 2" "f32 (- 1 / 2 ^ 26) = - 1 / 2 ^ 26" "f32 (- 1) = - 1"
  "f32 256 = 256" "f32 192 = 192" "f32 191 = 191"
  unfolding f32_def
  using fl_round_exact[of "- 1" 24 "- 6"] fl_round_exact[of "- 1" 24 "- 4"]
    fl_round_exact[of "- 1" 24 "- 2"] fl_round_exact[of "- 1" 24 "- 26"]
    fl_round_of_int[of "- 1" 24] fl_round_of_int[of 256 24] fl_round_of_int[of 192 24]
    fl_round_of_int[of 191 24]
  by simp_all

lemma f32_below_256: "f32 (- 1 / 2 ^ 26 + 256) = 256"
  unfolding f32_def using fl_round_eq[of 7 "- 1 / 2 ^ 26 + 256" 16777216 24] by simp

text \<open>
  The upper bounds are reached: a particle drawn above the first row with an abscissa
  of \<open>- 1 / 2 ^ 26\<close> is moved back by \<open>fb_width\<close>, and the sum is rounded to
  \<open>fb_width\<close> itself.
\<close>

lemma snow_position_reaches_width:
  "map_option fst
     (snow_particle RGUI_PARTICLE_EFFECT_SNOW 7 16 256 192 0 9 7
        \<lparr>p_a = 1 / 4 - 1 / 2 ^ 26, p_b = 0, p_c = - 1 / 2 ^ 6, p_d = - 1 / 2 ^ 4\<rparr> fb_init) =
   Some \<lparr>p_a = 256, p_b = 191, p_c = - 1 / 2 ^ 6, p_d = - 1 / 2 ^ 4\<rparr>"
proof -
  let ?p = "\<lparr>p_a = 1 / 4 - 1 / 2 ^ 26, p_b = 0, p_c = - 1 / 2 ^ 6, p_d = - 1 / 2 ^ 4\<rparr>"
  have c: "snow_clamp_c (f32 (p_c ?p +
             f32 (f32 (of_int (int (9 mod 16) - 9)) * f32 (1 / 100)))) = - 1 / 2 ^ 6"
    using f32_pow2 f32_tenth f32_four_tenths by (simp add: snow_clamp_c_def)
  have d: "snow_clamp_d (f32 (p_d ?p +
             f32 (f32 (of_int (int (7 mod 16) - 7)) * f32 (1 / 100)))) = - 1 / 2 ^ 4"
    using f32_pow2 f32_tenth f32_four_tenths by (simp add: snow_clamp_d_def)
  have t: "c_trunc ((- 1 / 2 ^ 26) / 256) = 0" by (rule c_trunc_small) simp
  have ra: "c_fmod (f32 (p_a ?p + f32 (16 * (- 1 / 2 ^ 6)))) (of_unsigned 256) =
              Some (- 1 / 2 ^ 26)"
    using t f32_pow2 by (simp add: c_fmod_def of_unsigned_def)
  have t2: "c_trunc (- 1 / 192) = 0" by (rule c_trunc_small) simp
  have rb: "c_fmod (f32 (p_b ?p + f32 (16 * (- 1 / 2 ^ 4)))) (of_unsigned 192) = Some (- 1)"
    using t2 f32_pow2 by (simp add: c_fmod_def of_unsigned_def)
  have x: "to_int (- 1 / 2 ^ 26) = 0"
    unfolding to_int_def by (subst c_trunc_small) simp_all
  have y: "to_int (- 1) = - 1"
    unfolding to_int_def using c_trunc_of_int[of "- 1"] by simp
  have on: "fst (rgui_draw_particle fb_init 256 192 (to_int (- 1 / 2 ^ 26)) (to_int (- 1))
            (snow_particle_size RGUI_PARTICLE_EFFECT_SNOW 0)
            (snow_particle_size RGUI_PARTICLE_EFFECT_SNOW 0) 7) = False"
    unfolding x y by (simp add: rgui_draw_particle_def snow_particle_size_def Let_def)
  show ?thesis
    using snow_particle_step[OF c d ra rb f32_pow2(4) f32_pow2(5) on]
      f32_pow2 f32_below_256 by (simp add: of_unsigned_def)
qed

subsection \<open>Snow: velocity at the clamp bound\<close>

lemma f32_tenth_exact: "f32 (13421773 / 2 ^ 27) = 13421773 / 2 ^ 27"
  unfolding f32_def using fl_round_exact[of 13421773 24 "- 27"] by simp

lemma f32_int_1: "f32 (of_int (int (17 mod 64) - 16)) = 1"
  by simp

lemma f32_int_0_init: "f32 (of_int (int (48 mod 64) - 48)) = 0"
  by simp

lemma f32_int_0_step: "f32 (of_int (int (9 mod 16) - 9)) = 0"
  by simp

lemma init_snow_particle_tenth:
  "init_snow_particle 256 192 0 100 17 48 =
     Some \<lparr>p_a = 0, p_b = 100, p_c = 13421773 / 2 ^ 27, p_d = 0\<rparr>"
  unfolding init_snow_particle_def f32_int_1 f32_int_0_init f32_tenth
  using f32_tenth_exact f32_100 by (simp add: of_unsigned_def)

text \<open>
  Claim C7, as stated, bounds the horizontal velocity by \<open>0.1\<close>. The source clamps to
  the \<^verbatim>\<open>float\<close> constant \<^verbatim>\<open>0.1f\<close>, which is \<open>13421773 / 2 ^ 27\<close>, above
  \<open>1 / 10\<close>. On a 256 by 192 buffer the initialisation with \<^verbatim>\<open>rand()\<close> values
  0, 100, 17, 48 gives a particle the horizontal velocity \<^verbatim>\<open>1.0f * 0.1f\<close>; an
  update step with \<^verbatim>\<open>rand() % 16\<close> equal to 9 and then 7 adds nothing to it, and
  the clamp, which compares with \<^verbatim>\<open>0.1f\<close>, leaves it as it is.
\<close>

theorem snow_velocity_above_tenth:
  "init_snow_particle 256 192 0 100 17 48 =
     Some \<lparr>p_a = 0, p_b = 100, p_c = 13421773 / 2 ^ 27, p_d = 0\<rparr> \<and>
   map_option fst
     (snow_particle RGUI_PARTICLE_EFFECT_SNOW 7 1 256 192 0 9 7
        \<lparr>p_a = 0, p_b = 100, p_c = 13421773 / 2 ^ 27, p_d = 0\<rparr> fb_init) =
     Some \<lparr>p_a = 13421773 / 2 ^ 27, p_b = 100, p_c = 13421773 / 2 ^ 27, p_d = 0\<rparr> \<and>
   (1 / 10 :: rat) < 13421773 / 2 ^ 27"
proof -
  let ?p = "\<lparr>p_a = 0, p_b = 100, p_c = 13421773 / 2 ^ 27, p_d = 0\<rparr>"
  have c: "snow_clamp_c (f32 (p_c ?p +
             f32 (f32 (of_int (int (9 mod 16) - 9)) * f32 (1 / 100)))) = 13421773 / 2 ^ 27"
    unfolding f32_int_0_step
    using f32_tenth_exact f32_tenth f32_four_tenths by (simp add: snow_clamp_c_def)
  have d: "snow_clamp_d (f32 (p_d ?p +
             f32 (f32 (of_int (int (7 mod 16) - 7)) * f32 (1 / 100)))) = 0"
    unfolding f32_int_0 using f32_tenth f32_four_tenths by (simp add: snow_clamp_d_def)
  have fe: "f32 (13421773 / 134217728) = 13421773 / 134217728"
    using f32_tenth_exact by simp
  have t: "c_trunc ((13421773 / 2 ^ 27) / 256) = 0" by (rule c_trunc_small) simp
  have ra: "c_fmod (f32 (p_a ?p + f32 (1 * (13421773 / 2 ^ 27)))) (of_unsigned 256) =
              Some (13421773 / 2 ^ 27)"
    using t by (simp add: fe c_fmod_def of_unsigned_def)
  have t2: "c_trunc (100 / 192) = 0" by (rule c_trunc_small) simp
  have rb: "c_fmod (f32 (p_b ?p + f32 (1 * 0))) (of_unsigned 192) = Some 100"
    using t2 f32_100 by (simp add: c_fmod_def of_unsigned_def)
  have x: "to_int (13421773 / 2 ^ 27) = 0"
    unfolding to_int_def by (subst c_trunc_small) simp_all
  have y: "to_int 100 = 100"
    unfolding to_int_def using c_trunc_of_int[of 100] by simp
  have on: "fst (rgui_draw_particle fb_init 256 192 (to_int (13421773 / 2 ^ 27)) (to_int 100)
            (snow_particle_size RGUI_PARTICLE_EFFECT_SNOW 0)
            (snow_particle_size RGUI_PARTICLE_EFFECT_SNOW 0) 7) = True"
    unfolding x y by (simp add: rgui_draw_particle_def snow_particle_size_def Let_def)
  have "map_option fst
     (snow_particle RGUI_PARTICLE_EFFECT_SNOW 7 1 256 192 0 9 7 ?p fb_init) =
     Some \<lparr>p_a = 13421773 / 2 ^ 27, p_b = 100, p_c = 13421773 / 2 ^ 27, p_d = 0\<rparr>"
    using snow_particle_step[OF c d ra rb f32_tenth_exact f32_100 on] by simp
  moreover have "(1 / 10 :: rat) < 13421773 / 2 ^ 27" by simp
  ultimately show ?thesis using init_snow_particle_tenth by blast
qed

end
